theory Spec2Isabelle
  imports Complex_Main "HOL-Library.Word" "HOL-Library.Multiset" "HOL-Library.Sublist"
begin

section \<open>Huffman coding of byte sequences (huffman.py)\<close>

text \<open>
  Symbols are single bytes, codewords and encoded streams are sequences of bits
  (the \<^verbatim>\<open>bitstring.BitStream\<close> objects of the source, used only through
  \<^verbatim>\<open>append\<close>, \<^verbatim>\<open>copy\<close>, \<^verbatim>\<open>length\<close>, indexing and slicing).
  Python exceptions are values of the type \<open>error\<close>.
\<close>

type_synonym byte = "8 word"
type_synonym bits = "bool list"

datatype error = IndexError | ValueError

subsection \<open>Padding\<close>

text \<open>
  \<^verbatim>\<open>paddingSuitableFor\<close>: \<^verbatim>\<open>n = bits.length; n = 8 - (n - (n // 8)*8)\<close>, then, when
  \<^verbatim>\<open>n > 0\<close>, one \<^verbatim>\<open>True\<close> and a loop appending \<^verbatim>\<open>False\<close> while the counter is positive.
\<close>

function padding_loop :: "int \<Rightarrow> bits \<Rightarrow> bits" where
  "padding_loop n ret = (if n > 0 then padding_loop (n - 1) (ret @ [False]) else ret)"
  by pat_completeness auto
termination
  by (relation "measure (\<lambda>(n, ret). nat n)") auto

declare padding_loop.simps [simp del]

definition paddingSuitableFor :: "bits \<Rightarrow> bits" where
  "paddingSuitableFor bs =
     (let n = int (length bs);
          n = 8 - (n - (n div 8) * 8)
      in if n > 0 then padding_loop (n - 1) ([] @ [True]) else [])"

text \<open>
  \<^verbatim>\<open>removePadding\<close>: \<^verbatim>\<open>while not bits[-1]: bits = bits[:-1]\<close>, then one more
  \<^verbatim>\<open>bits = bits[:-1]\<close>. Reading \<^verbatim>\<open>bits[-1]\<close> of an empty bit sequence raises
  \<^verbatim>\<open>IndexError\<close>; slicing never raises.
\<close>

function removePadding_loop :: "bits \<Rightarrow> error + bits" where
  "removePadding_loop bs =
     (if bs = [] then Inl IndexError
      else if \<not> last bs then removePadding_loop (butlast bs)
      else Inr bs)"
  by pat_completeness auto
termination
  by (relation "measure length") auto

declare removePadding_loop.simps [simp del]

definition removePadding :: "bits \<Rightarrow> error + bits" where
  "removePadding bs =
     (case removePadding_loop bs of
        Inl e \<Rightarrow> Inl e
      | Inr bs' \<Rightarrow> Inr (butlast bs'))"

subsection \<open>The priority queue: Python's heapq on a list\<close>

text \<open>
  \<^verbatim>\<open>MinHeapWrapper\<close> delegates to the standard library's \<^verbatim>\<open>heapq\<close>, a binary heap
  stored in a list, whose only access to the elements is their \<^verbatim>\<open>__lt__\<close>. The
  functions below follow \<^verbatim>\<open>heapq._siftdown\<close>, \<^verbatim>\<open>heapq._siftup\<close>,
  \<^verbatim>\<open>heapq.heapify\<close>, \<^verbatim>\<open>heapq.heappush\<close> and \<^verbatim>\<open>heapq.heappop\<close> statement by
  statement, with the comparison \<open>lt\<close> as a parameter. Every list read in them is in
  range at each call the library makes (\<open>pos < len(heap)\<close>), so the reads are written
  with \<open>!\<close>; only \<^verbatim>\<open>heappop\<close> of an empty list raises \<^verbatim>\<open>IndexError\<close>.
\<close>

function siftdown_loop :: "('a \<Rightarrow> 'a \<Rightarrow> bool) \<Rightarrow> 'a list \<Rightarrow> nat \<Rightarrow> nat \<Rightarrow> 'a \<Rightarrow> 'a list" where
  "siftdown_loop lt heap startpos pos newitem =
     (if pos > startpos then
        (if lt newitem (heap ! ((pos - 1) div 2))
         then siftdown_loop lt (heap[pos := heap ! ((pos - 1) div 2)]) startpos ((pos - 1) div 2) newitem
         else heap[pos := newitem])
      else heap[pos := newitem])"
  by pat_completeness auto
termination
  by (relation "measure (\<lambda>(lt, heap, startpos, pos, newitem). pos)") auto

declare siftdown_loop.simps [simp del]

definition siftdown :: "('a \<Rightarrow> 'a \<Rightarrow> bool) \<Rightarrow> 'a list \<Rightarrow> nat \<Rightarrow> nat \<Rightarrow> 'a list" where
  "siftdown lt heap startpos pos = siftdown_loop lt heap startpos pos (heap ! pos)"

definition smaller_child :: "('a \<Rightarrow> 'a \<Rightarrow> bool) \<Rightarrow> 'a list \<Rightarrow> nat \<Rightarrow> nat \<Rightarrow> nat" where
  "smaller_child lt heap endpos childpos =
     (if childpos + 1 < endpos \<and> \<not> lt (heap ! childpos) (heap ! (childpos + 1))
      then childpos + 1 else childpos)"

function siftup_loop :: "('a \<Rightarrow> 'a \<Rightarrow> bool) \<Rightarrow> 'a list \<Rightarrow> nat \<Rightarrow> nat \<Rightarrow> nat \<Rightarrow> 'a list \<times> nat" where
  "siftup_loop lt heap endpos pos childpos =
     (if childpos < endpos then
        siftup_loop lt (heap[pos := heap ! smaller_child lt heap endpos childpos]) endpos
          (smaller_child lt heap endpos childpos)
          (2 * smaller_child lt heap endpos childpos + 1)
      else (heap, pos))"
  by pat_completeness auto
termination
  by (relation "measure (\<lambda>(lt, heap, endpos, pos, childpos). endpos - childpos)")
     (auto simp: smaller_child_def)

declare siftup_loop.simps [simp del]

definition siftup :: "('a \<Rightarrow> 'a \<Rightarrow> bool) \<Rightarrow> 'a list \<Rightarrow> nat \<Rightarrow> 'a list" where
  "siftup lt heap pos =
     (let endpos = length heap;
          startpos = pos;
          newitem = heap ! pos;
          (heap', pos') = siftup_loop lt heap endpos pos (2 * pos + 1)
      in siftdown lt (heap'[pos' := newitem]) startpos pos')"

definition heapify :: "('a \<Rightarrow> 'a \<Rightarrow> bool) \<Rightarrow> 'a list \<Rightarrow> 'a list" where
  "heapify lt x = fold (\<lambda>i h. siftup lt h i) (rev [0 ..< length x div 2]) x"

definition heappush :: "('a \<Rightarrow> 'a \<Rightarrow> bool) \<Rightarrow> 'a list \<Rightarrow> 'a \<Rightarrow> 'a list" where
  "heappush lt heap item = siftdown lt (heap @ [item]) 0 (length (heap @ [item]) - 1)"

definition heappop :: "('a \<Rightarrow> 'a \<Rightarrow> bool) \<Rightarrow> 'a list \<Rightarrow> error + ('a \<times> 'a list)" where
  "heappop lt heap =
     (if heap = [] then Inl IndexError
      else
        let lastelt = last heap;
            heap' = butlast heap
        in if heap' \<noteq> [] then Inr (heap' ! 0, siftup lt (heap'[0 := lastelt]) 0)
           else Inr (lastelt, heap'))"

subsection \<open>Prefix trees\<close>

text \<open>
  A \<^verbatim>\<open>PrefixTree\<close> object is a leaf when its \<^verbatim>\<open>symbol\<close> is a byte and an internal node
  when its \<^verbatim>\<open>symbol\<close> is the empty string (\<^verbatim>\<open>isSingleton\<close>); \<^verbatim>\<open>fromTwoTrees\<close> is the
  only place that builds the latter, always with both children. The frequency is kept
  polymorphic: the construction only adds and compares frequencies.
\<close>

datatype 'w PrefixTree =
    Leaf (key: 'w) (symbol: byte)
  | Node (key: 'w) (lChild: "'w PrefixTree") (rChild: "'w PrefixTree")

fun isSingleton :: "'w PrefixTree \<Rightarrow> bool" where
  "isSingleton (Leaf f s) = True"
| "isSingleton (Node f l r) = False"

definition fromTwoTrees :: "'w::plus PrefixTree \<Rightarrow> 'w PrefixTree \<Rightarrow> 'w PrefixTree" where
  "fromTwoTrees t1 t2 = Node (key t1 + key t2) t1 t2"

text \<open>
  \<^verbatim>\<open>find_smallest\<close> returns the leaf's symbol when \<^verbatim>\<open>int.from_bytes(symbol) < smallest\<close>
  and \<^verbatim>\<open>smallest\<close> otherwise, and the \<^verbatim>\<open>min\<close> of the two children's results at an
  internal node (both children get the caller's \<^verbatim>\<open>smallest\<close>). One-byte values compare
  as their integer values, so the result is modelled by that integer. \<^verbatim>\<open>__lt__\<close> calls
  it with 1000, above every byte, so that the second branch of a leaf is never taken
  there. The statements after the \<^verbatim>\<open>return\<close>s of \<^verbatim>\<open>find_smallest\<close> are unreachable.
\<close>

fun find_smallest :: "'w PrefixTree \<Rightarrow> nat \<Rightarrow> nat" where
  "find_smallest (Leaf f s) smallest = (if unat s < smallest then unat s else smallest)"
| "find_smallest (Node f l r) smallest =
     min (find_smallest l smallest) (find_smallest r smallest)"

definition lt :: "'w::ord PrefixTree \<Rightarrow> 'w PrefixTree \<Rightarrow> bool" where
  "lt self other =
     (if key self = key other
      then find_smallest self 1000 < find_smallest other 1000
      else key self < key other)"

subsection \<open>Construction of the code\<close>

text \<open>
  The object keeps the tree and the table of codewords (\<^verbatim>\<open>EPSILON\<close> is never read).
  \<^verbatim>\<open>search_tree\<close> stores the path of every leaf at the index of its symbol; the index
  of a byte is below 256, the length of the list, so the assignment never raises. The
  list starts as 256 references to one empty bit sequence, which is never mutated:
  entries are replaced, and every path is a fresh copy.
\<close>

record 'w HuffmanCode =
  tree :: "'w PrefixTree"
  code_array :: "bits list"

fun search_tree :: "'w PrefixTree \<Rightarrow> bits \<Rightarrow> bits list \<Rightarrow> bits list" where
  "search_tree (Leaf f s) bitseq symbols = symbols[unat s := bitseq]"
| "search_tree (Node f t1 t2) bitseq symbols =
     search_tree t2 (bitseq @ [True]) (search_tree t1 (bitseq @ [False]) symbols)"

lemma length_siftdown_loop [simp]:
  "length (siftdown_loop f heap startpos pos newitem) = length heap"
proof (induction f heap startpos pos newitem rule: siftdown_loop.induct)
  case (1 f heap startpos pos newitem)
  then show ?case
    by (subst siftdown_loop.simps) simp
qed

lemma length_siftup_loop [simp]:
  "length (fst (siftup_loop f heap endpos pos childpos)) = length heap"
proof (induction f heap endpos pos childpos rule: siftup_loop.induct)
  case (1 f heap endpos pos childpos)
  then show ?case
    by (subst siftup_loop.simps) simp
qed

lemma length_siftup [simp]: "length (siftup f heap pos) = length heap"
proof -
  obtain h p where hp: "siftup_loop f heap (length heap) pos (2 * pos + 1) = (h, p)"
    by (cases "siftup_loop f heap (length heap) pos (2 * pos + 1)")
  then have "length h = length heap"
    using length_siftup_loop [of f heap "length heap" pos "2 * pos + 1"] by simp
  with hp show ?thesis
    by (simp add: siftup_def siftdown_def Let_def)
qed

lemma length_heappush [simp]: "length (heappush f heap item) = Suc (length heap)"
  by (simp add: heappush_def siftdown_def)

lemma length_heappop: "heappop f heap = Inr (x, heap') \<Longrightarrow> Suc (length heap') = length heap"
  by (cases heap rule: rev_cases) (auto simp: heappop_def Let_def split: if_splits)

text \<open>
  \<^verbatim>\<open>__init__\<close>: one leaf for every key of the frequency table, in the order of the
  dictionary (the table is the list of its items, with distinct keys); the list is
  heapified; while more than one tree is in the queue, the two least are popped and
  their merge is pushed; the last tree is popped (an \<^verbatim>\<open>IndexError\<close> for an empty
  table) and the codewords are derived from it. The \<^verbatim>\<open>print\<close> of the loop has no
  effect on the result and is left out.
\<close>

function build_loop :: "'w::{ord,plus} PrefixTree list \<Rightarrow> error + 'w PrefixTree list" where
  "build_loop m =
     (if length m > 1 then
        (case heappop lt m of
           Inl e \<Rightarrow> Inl e
         | Inr (t1, m1) \<Rightarrow>
             (case heappop lt m1 of
                Inl e \<Rightarrow> Inl e
              | Inr (t2, m2) \<Rightarrow> build_loop (heappush lt m2 (fromTwoTrees t1 t2))))
      else Inr m)"
  by pat_completeness auto
termination
proof (relation "measure length", goal_cases)
  case 1
  show ?case by simp
next
  case (2 m x t1 m1 y t2 m2)
  then have "Suc (length m1) = length m" and "Suc (length m2) = length m1"
    by (auto dest: length_heappop)
  then show ?case by simp
qed

declare build_loop.simps [simp del]

definition HuffmanCode_init :: "(byte \<times> 'w) list \<Rightarrow> error + ('w::{ord,plus}) HuffmanCode" where
  "HuffmanCode_init frequencyTable =
     (let heap = map (\<lambda>(b, f). Leaf f b) frequencyTable;
          m = heapify lt heap
      in case build_loop m of
           Inl e \<Rightarrow> Inl e
         | Inr m' \<Rightarrow>
             (case heappop lt m' of
                Inl e \<Rightarrow> Inl e
              | Inr (t, m'') \<Rightarrow>
                  Inr \<lparr>tree = t, code_array = search_tree t [] (replicate 256 [])\<rparr>))"

subsection \<open>Encoding and decoding\<close>

text \<open>
  \<^verbatim>\<open>codewordFor\<close> indexes \<^verbatim>\<open>code_array\<close> with the symbol's integer value; a Python list
  raises \<^verbatim>\<open>IndexError\<close> when the index is not below its length. \<^verbatim>\<open>encode\<close> appends
  the codeword of each byte of the plaintext in turn and then the padding.
\<close>

definition codewordFor :: "'w HuffmanCode \<Rightarrow> byte \<Rightarrow> error + bits" where
  "codewordFor h s =
     (if unat s < length (code_array h) then Inr (code_array h ! unat s) else Inl IndexError)"

fun encode_loop :: "'w HuffmanCode \<Rightarrow> byte list \<Rightarrow> bits \<Rightarrow> error + bits" where
  "encode_loop h [] ret = Inr ret"
| "encode_loop h (b # plaintextBytes) ret =
     (case codewordFor h b of
        Inl e \<Rightarrow> Inl e
      | Inr cw \<Rightarrow> encode_loop h plaintextBytes (ret @ cw))"

definition encode :: "'w HuffmanCode \<Rightarrow> byte list \<Rightarrow> error + bits" where
  "encode h plaintextBytes =
     (case encode_loop h plaintextBytes [] of
        Inl e \<Rightarrow> Inl e
      | Inr ret \<Rightarrow> Inr (ret @ paddingSuitableFor ret))"

text \<open>
  \<^verbatim>\<open>traverseTree\<close> walks from the given node while it is not a leaf, reading
  \<^verbatim>\<open>codeWord[0]\<close> (an \<^verbatim>\<open>IndexError\<close> on the empty bit sequence) and dropping it;
  the method starts it at \<^verbatim>\<open>self.tree\<close>.
\<close>

fun traverse :: "'w PrefixTree \<Rightarrow> bits \<Rightarrow> error + (byte \<times> bits)" where
  "traverse (Leaf f s) codeWord = Inr (s, codeWord)"
| "traverse (Node f l r) [] = Inl IndexError"
| "traverse (Node f l r) (b # codeWord) = traverse (if \<not> b then l else r) codeWord"

definition traverseTree :: "'w HuffmanCode \<Rightarrow> bits \<Rightarrow> error + (byte \<times> bits)" where
  "traverseTree h codeWord = traverse (tree h) codeWord"

text \<open>
  The loop of \<^verbatim>\<open>decode\<close> runs while bits remain. Nothing in it bounds the number of
  iterations (a tree that is a single leaf consumes no bit), so the loop is a partial
  function: \<open>None\<close> stands for a run that never returns.
\<close>

partial_function (option) decode_loop ::
  "'w HuffmanCode \<Rightarrow> bits \<Rightarrow> byte list \<Rightarrow> (error + byte list) option" where
  "decode_loop h encodedBits byteArray =
     (if length encodedBits > 0 then
        (case traverseTree h encodedBits of
           Inl e \<Rightarrow> Some (Inl e)
         | Inr (s, encodedBits') \<Rightarrow> decode_loop h encodedBits' (byteArray @ [s]))
      else Some (Inr byteArray))"

declare decode_loop.simps [code]

definition decode :: "'w HuffmanCode \<Rightarrow> bits \<Rightarrow> (error + byte list) option" where
  "decode h encodedAndPaddedBits =
     (case removePadding encodedAndPaddedBits of
        Inl e \<Rightarrow> Some (Inl e)
      | Inr encodedBits \<Rightarrow> decode_loop h encodedBits [])"

subsection \<open>Occurrence and frequency tables\<close>


subsection \<open>Notions of the specification and example tables\<close>

text \<open>
  The length of the padding as the specification gives it, from the number \<open>r\<close> of
  codeword bits modulo 8.
\<close>

definition pad_length :: "nat \<Rightarrow> nat" where
  "pad_length r = (if r \<noteq> 0 then 8 - r else 8)"

text \<open>
  Three symbols of equal weight (the specification's Scenario A) and the code that the
  construction builds from them.
\<close>

definition tblA :: "(byte \<times> real) list" where
  "tblA = [(0x41, 1/3), (0x42, 1/3), (0x43, 1/3)]"

definition hA :: "real HuffmanCode" where
  "hA = \<lparr>tree = Node 1 (Leaf (1/3) 0x43) (Node (2/3) (Leaf (1/3) 0x41) (Leaf (1/3) 0x42)),
          code_array = replicate 65 [] @ [[True, False], [True, True], [False]] @ replicate 188 []\<rparr>"

text \<open>
  A table with the single entry \<open>X\<close> of weight 1 (the specification's Scenario B) and
  the code that the construction builds from it.
\<close>

definition tblX :: "(byte \<times> real) list" where
  "tblX = [(0x58, 1)]"

definition hX :: "real HuffmanCode" where
  "hX = \<lparr>tree = Leaf 1 0x58, code_array = replicate 256 []\<rparr>"

text \<open>The symbols at the leaves of a tree, from left to right.\<close>

fun leaves :: "'w PrefixTree \<Rightarrow> byte list" where
  "leaves (Leaf f s) = [s]"
| "leaves (Node f l r) = leaves l @ leaves r"

text \<open>All the symbols held by the trees of a queue.\<close>

definition heap_symbols :: "'w PrefixTree list \<Rightarrow> byte multiset" where
  "heap_symbols m = (\<Sum>t\<in>#mset m. mset (leaves t))"

text \<open>
  Two tables with all 256 symbols: one with equal weights, one where only the symbol
  \<open>0x41\<close> has a non-zero weight.
\<close>

definition tblU :: "(byte \<times> real) list" where
  "tblU = map (\<lambda>i. (word_of_nat i, 1 / 256)) [0 ..< 256]"

definition tblZ :: "(byte \<times> real) list" where
  "tblZ = map (\<lambda>i. (word_of_nat i, if i = 65 then 1 else 0)) [0 ..< 256]"

text \<open>
  The decoder as the specification describes it, a state machine over the positions of
  the tree: each bit moves the position to the left or right child; at a leaf the
  symbol is emitted and the position is reset to the root. The result is the position
  and the output when the bits have run out.
\<close>

fun spec_decoder ::
  "'w PrefixTree \<Rightarrow> 'w PrefixTree \<Rightarrow> bits \<Rightarrow> byte list \<Rightarrow> 'w PrefixTree \<times> byte list" where
  "spec_decoder start pos [] out = (pos, out)"
| "spec_decoder start (Leaf f s) (b # bs) out = (Leaf f s, out)"
| "spec_decoder start (Node f l r) (b # bs) out =
     (case (if b then r else l) of
        Leaf f' s \<Rightarrow> spec_decoder start start bs (out @ [s])
      | Node f' l' r' \<Rightarrow> spec_decoder start (Node f' l' r') bs out)"

text \<open>
  Notions for the heap order of the queue. Position \<open>p\<close> is below position \<open>k\<close> when
  it is reached from \<open>k\<close> through children (the children of \<open>p\<close> are \<open>2p + 1\<close> and
  \<open>2p + 2\<close>). An edge is in order when the child is not less than its parent; the
  list is a heap above \<open>k\<close> when every edge whose parent is at \<open>k\<close> or later is in
  order, and a heap when all edges are.
\<close>

inductive desc :: "nat \<Rightarrow> nat \<Rightarrow> bool" for k :: nat where
  desc_self: "desc k k"
| desc_left: "desc k p \<Longrightarrow> desc k (2 * p + 1)"
| desc_right: "desc k p \<Longrightarrow> desc k (2 * p + 2)"

definition edge_ok :: "('a \<Rightarrow> 'a \<Rightarrow> bool) \<Rightarrow> 'a list \<Rightarrow> nat \<Rightarrow> bool" where
  "edge_ok f h j = (\<not> f (h ! j) (h ! ((j - 1) div 2)))"

definition heap_above :: "('a \<Rightarrow> 'a \<Rightarrow> bool) \<Rightarrow> nat \<Rightarrow> 'a list \<Rightarrow> bool" where
  "heap_above f k h = (\<forall>j. 0 < j \<and> j < length h \<and> k \<le> (j - 1) div 2 \<longrightarrow> edge_ok f h j)"

definition is_heap :: "('a \<Rightarrow> 'a \<Rightarrow> bool) \<Rightarrow> 'a list \<Rightarrow> bool" where
  "is_heap f h = heap_above f 0 h"

text \<open>
  What the heap needs of the comparison: it is asymmetric, and "not less than" is
  transitive.
\<close>

definition strict_weak :: "('a \<Rightarrow> 'a \<Rightarrow> bool) \<Rightarrow> bool" where
  "strict_weak f = ((\<forall>x y. f x y \<longrightarrow> \<not> f y x) \<and> (\<forall>x y z. \<not> f y x \<longrightarrow> \<not> f z y \<longrightarrow> \<not> f z x))"

text \<open>
  The state of a sift with the moving item taken out of position \<open>p\<close>: the edges that
  do not touch \<open>p\<close> are in order, and the children of \<open>p\<close> are not less than the
  parent of \<open>p\<close>.
\<close>

definition hole_inv :: "('a \<Rightarrow> 'a \<Rightarrow> bool) \<Rightarrow> nat \<Rightarrow> 'a list \<Rightarrow> nat \<Rightarrow> bool" where
  "hole_inv f k h p =
     (p < length h \<and> desc k p
      \<and> (\<forall>j. 0 < j \<and> j < length h \<and> k \<le> (j - 1) div 2 \<and> j \<noteq> p \<and> (j - 1) div 2 \<noteq> p
             \<longrightarrow> edge_ok f h j)
      \<and> (p \<noteq> k \<longrightarrow> (\<forall>c. c < length h \<and> (c = 2 * p + 1 \<or> c = 2 * p + 2)
             \<longrightarrow> \<not> f (h ! c) (h ! ((p - 1) div 2)))))"

text \<open>
  The queue of \<^verbatim>\<open>__init__\<close> after \<open>n\<close> iterations of its \<^verbatim>\<open>while\<close> loop (the loop body
  of \<open>build_loop\<close>, applied \<open>n\<close> times to the heapified leaves), and the smallest
  symbol at the leaves of a tree.
\<close>

fun queue_after :: "(byte \<times> 'w::{ord,plus}) list \<Rightarrow> nat \<Rightarrow> 'w PrefixTree list" where
  "queue_after tbl 0 = heapify lt (map (\<lambda>(b, f). Leaf f b) tbl)"
| "queue_after tbl (Suc n) =
     (let m = queue_after tbl n in
      if length m > 1 then
        (case heappop lt m of
           Inl e \<Rightarrow> m
         | Inr (t1, m1) \<Rightarrow>
             (case heappop lt m1 of
                Inl e \<Rightarrow> m
              | Inr (t2, m2) \<Rightarrow> heappush lt m2 (fromTwoTrees t1 t2)))
      else m)"

definition min_symbol :: "'w PrefixTree \<Rightarrow> byte" where
  "min_symbol t = Min (set (leaves t))"

text \<open>
  A tree all of whose internal nodes are merges as \<^verbatim>\<open>__init__\<close> makes them: the weight
  is the sum of the children's weights, and the left child is less than the right
  child by \<^verbatim>\<open>__lt__\<close>.
\<close>

fun well_merged :: "'w::{ord,plus} PrefixTree \<Rightarrow> bool" where
  "well_merged (Leaf f s) = True"
| "well_merged (Node f l r) = (f = key l + key r \<and> lt l r \<and> well_merged l \<and> well_merged r)"

section \<open>Properties of the padding\<close>

lemma padding_loop_eq: "0 \<le> n \<Longrightarrow> padding_loop n ret = ret @ replicate (nat n) False"
proof (induction n ret rule: padding_loop.induct)
  case (1 n ret)
  show ?case
  proof (cases "n > 0")
    case True
    then have "nat n = Suc (nat (n - 1))" by simp
    with True 1 show ?thesis
      by (subst padding_loop.simps) (simp add: replicate_app_Cons_same)
  next
    case False
    with 1 show ?thesis by (subst padding_loop.simps) simp
  qed
qed

lemma paddingSuitableFor_eq:
  "paddingSuitableFor bs = True # replicate (7 - length bs mod 8) False"
proof -
  let ?n = "int (length bs)"
  have m: "?n - (?n div 8) * 8 = ?n mod 8"
    by (simp add: minus_div_mult_eq_mod)
  have r: "0 \<le> ?n mod 8" "?n mod 8 < 8" by simp_all
  have "nat (8 - ?n mod 8 - 1) = 7 - length bs mod 8"
    using r by (simp add: nat_diff_distrib' nat_mod_distrib) 
  then show ?thesis
    using r unfolding paddingSuitableFor_def Let_def m
    by (simp add: padding_loop_eq)
qed

lemma removePadding_loop_snoc_False:
  "removePadding_loop (xs @ [False]) = removePadding_loop xs"
  by (subst removePadding_loop.simps) simp

lemma removePadding_loop_snoc_True:
  "removePadding_loop (xs @ [True]) = Inr (xs @ [True])"
  by (subst removePadding_loop.simps) simp

lemma removePadding_loop_zeros:
  "removePadding_loop (replicate k False) = Inl IndexError"
proof (induction k)
  case 0
  show ?case by (subst removePadding_loop.simps) simp
next
  case (Suc k)
  have "replicate (Suc k) False = replicate k False @ [False]"
    by (simp add: replicate_append_same)
  then show ?case
    using Suc by (simp only: removePadding_loop_snoc_False)
qed

lemma removePadding_loop_one:
  "removePadding_loop (p @ True # replicate k False) = Inr (p @ [True])"
proof (induction k)
  case 0
  show ?case using removePadding_loop_snoc_True [of p] by simp
next
  case (Suc k)
  have e: "p @ True # replicate (Suc k) False = (p @ True # replicate k False) @ [False]"
    by (simp add: replicate_append_same)
  show ?case
    unfolding e using Suc by (simp only: removePadding_loop_snoc_False)
qed

lemma removePadding_zeros: "removePadding (replicate k False) = Inl IndexError"
  by (simp add: removePadding_def removePadding_loop_zeros)

lemma removePadding_one: "removePadding (p @ True # replicate k False) = Inr p"
  by (simp add: removePadding_def removePadding_loop_one)

lemma removePadding_padding: "removePadding (ret @ paddingSuitableFor ret) = Inr ret"
  by (simp add: paddingSuitableFor_eq removePadding_one)

section \<open>Shape of the encoder's output\<close>

lemma init_tblA: "HuffmanCode_init tblA = Inr hA"
  by code_simp

lemma length_search_tree [simp]: "length (search_tree t bitseq symbols) = length symbols"
  by (induction t arbitrary: bitseq symbols) simp_all

lemma init_code_array_length:
  "HuffmanCode_init tbl = Inr h \<Longrightarrow> length (code_array h) = 256"
  by (auto simp: HuffmanCode_init_def Let_def split: sum.splits prod.splits)

lemma codewordFor_total:
  "length (code_array h) = 256 \<Longrightarrow> codewordFor h b = Inr (code_array h ! unat b)"
proof -
  have "unat b < 256" using unsigned_less [of b] by simp
  then show "length (code_array h) = 256 \<Longrightarrow> codewordFor h b = Inr (code_array h ! unat b)"
    by (simp add: codewordFor_def)
qed

lemma encode_loop_concat:
  "length (code_array h) = 256 \<Longrightarrow>
   encode_loop h plain ret = Inr (ret @ concat (map (\<lambda>b. code_array h ! unat b) plain))"
  by (induction plain arbitrary: ret) (simp_all add: codewordFor_total)

lemma encode_eq:
  "length (code_array h) = 256 \<Longrightarrow>
   encode h plain =
     Inr (concat (map (\<lambda>b. code_array h ! unat b) plain) @
          paddingSuitableFor (concat (map (\<lambda>b. code_array h ! unat b) plain)))"
  by (simp add: encode_def encode_loop_concat)

lemma pad_length_eq: "pad_length (n mod 8) - 1 = 7 - n mod 8"
  unfolding pad_length_def by (simp split: if_splits)

lemma pad_length_bounds: "1 \<le> pad_length (n mod 8) \<and> pad_length (n mod 8) \<le> 8"
proof -
  have "n mod 8 < 8" by simp
  then show ?thesis unfolding pad_length_def by (simp split: if_splits) arith
qed

lemma padded_length_mod: "(n + Suc (7 - n mod 8)) mod 8 = 0"
proof -
  have "n mod 8 < 8" by simp
  then have "n + Suc (7 - n mod 8) = 8 * (n div 8) + 8"
    using div_mult_mod_eq [of n 8] by arith
  then show ?thesis by simp
qed

text \<open>
  C2. The output of \<^verbatim>\<open>encode\<close> is the concatenation of the codewords of the input
  symbols followed by a padding of one \<open>True\<close> bit and then \<open>False\<close> bits; with \<open>r\<close>
  the number of codeword bits modulo 8, the padding has \<open>8 - r\<close> bits when \<open>r \<noteq> 0\<close> and
  8 bits when \<open>r = 0\<close>. So the padding has between 1 and 8 bits and the length of the
  output is a positive multiple of 8.
\<close>

theorem encode_layout:
  fixes plain :: "byte list"
  assumes "HuffmanCode_init tbl = Inr h"
  defines "cws \<equiv> concat (map (\<lambda>b. code_array h ! unat b) plain)"
  defines "n \<equiv> pad_length (length cws mod 8)"
  shows "list_all (\<lambda>b. codewordFor h b = Inr (code_array h ! unat b)) plain
         \<and> encode h plain = Inr (cws @ True # replicate (n - 1) False)
         \<and> 1 \<le> n \<and> n \<le> 8
         \<and> length (cws @ True # replicate (n - 1) False) mod 8 = 0
         \<and> 0 < length (cws @ True # replicate (n - 1) False)"
proof -
  have len: "length (code_array h) = 256"
    using assms(1) by (rule init_code_array_length)
  have "list_all (\<lambda>b. codewordFor h b = Inr (code_array h ! unat b)) plain"
    by (simp add: list_all_iff codewordFor_total [OF len])
  moreover have "encode h plain = Inr (cws @ True # replicate (n - 1) False)"
    unfolding cws_def n_def pad_length_eq
    by (simp add: encode_eq [OF len] paddingSuitableFor_eq)
  moreover have "1 \<le> n \<and> n \<le> 8"
    unfolding n_def by (rule pad_length_bounds)
  moreover have "length (cws @ True # replicate (n - 1) False) mod 8 = 0"
    unfolding n_def pad_length_eq using padded_length_mod [of "length cws"] by simp
  ultimately show ?thesis by simp
qed

lemma encode_layout_value:
  "concat (map (\<lambda>b. code_array hA ! unat b) [0x41, 0x42, 0x43 :: byte]) @ True #
     replicate (pad_length (length (concat (map (\<lambda>b. code_array hA ! unat b) [0x41, 0x42, 0x43 :: byte])) mod 8) - 1) False
   = [True, False, True, True, False, True, False, False]"
  by code_simp

theorem encode_layout_witness:
  "HuffmanCode_init tblA = Inr hA
   \<and> encode hA [0x41, 0x42, 0x43] = Inr [True, False, True, True, False, True, False, False]"
  using encode_layout [OF init_tblA, of "[0x41, 0x42, 0x43]"] init_tblA
  by (simp only: encode_layout_value)

section \<open>Removal of the padding\<close>

text \<open>
  C3, as the code has it. A bit sequence without a \<open>True\<close> bit makes \<^verbatim>\<open>removePadding\<close>
  fail with \<^verbatim>\<open>IndexError\<close>. Any other bit sequence is \<open>p\<close>, one \<open>True\<close> bit and \<open>k\<close>
  \<open>False\<close> bits, and \<^verbatim>\<open>removePadding\<close> returns \<open>p\<close>, which is \<open>k + 1\<close> bits shorter,
  whatever \<open>k\<close> is. For the padding that \<^verbatim>\<open>paddingSuitableFor\<close> appends the difference
  is between 1 and 8 bits.
\<close>

theorem removePadding_strips:
  "removePadding (replicate k False) = Inl IndexError
   \<and> removePadding (p @ True # replicate k False) = Inr p
   \<and> length (p @ True # replicate k False) = length p + (k + 1)
   \<and> removePadding (ret @ paddingSuitableFor ret) = Inr ret
   \<and> 1 \<le> length (paddingSuitableFor ret) \<and> length (paddingSuitableFor ret) \<le> 8"
  by (simp add: removePadding_zeros removePadding_one removePadding_padding
        paddingSuitableFor_eq)

text \<open>
  The claim's bound of 8 bits fails on an input with more than seven trailing \<open>False\<close>
  bits: two bytes \<open>10000000 00000000\<close> lose all their 16 bits.
\<close>

theorem removePadding_bound_counterexample:
  "removePadding [True, False, False, False, False, False, False, False,
                  False, False, False, False, False, False, False, False] = Inr []
   \<and> length [True, False, False, False, False, False, False, False,
              False, False, False, False, False, False, False, False]
       - length ([] :: bits) = 16"
  by code_simp

section \<open>Normalisation of an occurrence table\<close>






section \<open>A table with a single symbol\<close>

lemma heapify_single: "heapify f [t] = [t]"
  by (simp add: heapify_def)

lemma build_loop_single: "build_loop [t] = Inr [t]"
  by (subst build_loop.simps) simp

lemma heappop_single: "heappop f [t] = Inr (t, [])"
  by (simp add: heappop_def)

lemma replicate_update_same: "i < n \<Longrightarrow> (replicate n a)[i := a] = replicate n a"
  by (metis list_update_id nth_replicate)

lemma unat_byte_less: "unat (x :: byte) < 256"
  using unsigned_less [of x] by simp

lemma replicate_7_False: "replicate 7 False = [False, False, False, False, False, False, False]"
  by (simp add: eval_nat_numeral)

lemma init_single:
  "HuffmanCode_init [(x, w)] = Inr \<lparr>tree = Leaf w x, code_array = replicate 256 []\<rparr>"
proof -
  have "(replicate 256 ([]::bits))[unat x := []] = replicate 256 []"
    using unat_byte_less by (rule replicate_update_same)
  then show ?thesis
    by (simp add: HuffmanCode_init_def heapify_single build_loop_single heappop_single)
qed

lemma encode_loop_single:
  "encode_loop \<lparr>tree = t, code_array = replicate 256 []\<rparr> plain ret = Inr ret"
proof (induction plain arbitrary: ret)
  case Nil
  show ?case by simp
next
  case (Cons b plain)
  show ?case using Cons unat_byte_less [of b] by (simp add: codewordFor_def)
qed

lemma decode_one_byte_padding:
  "decode h [True, False, False, False, False, False, False, False] = Some (Inr [])"
proof -
  have "removePadding ([] @ True # replicate 7 False) = Inr []"
    by (rule removePadding_one)
  then have "removePadding [True, False, False, False, False, False, False, False] = Inr []"
    by (simp add: replicate_7_False)
  then show ?thesis
    by (simp add: decode_def decode_loop.simps)
qed

text \<open>
  C8, as the code has it. From a table with the single entry \<open>(x, w)\<close> the construction
  returns the tree \<open>Leaf w x\<close>, and the codeword of \<open>x\<close> is empty. Encoding \<open>n\<close> copies
  of \<open>x\<close> gives the one byte \<open>10000000\<close> whatever \<open>n\<close> is, and decoding that byte
  returns, without looping, the empty sequence.
\<close>

theorem single_symbol_code:
  fixes w :: "'w::{ord,plus}" and x :: byte
  defines "h \<equiv> \<lparr>tree = Leaf w x, code_array = replicate 256 []\<rparr>"
  shows "HuffmanCode_init [(x, w)] = Inr h
       \<and> codewordFor h x = Inr []
       \<and> encode h (replicate n x) = Inr [True, False, False, False, False, False, False, False]
       \<and> decode h [True, False, False, False, False, False, False, False] = Some (Inr [])"
proof -
  have "codewordFor h x = Inr []"
    using unat_byte_less [of x] by (simp add: codewordFor_def h_def)
  moreover have "encode h (replicate n x) = Inr [True, False, False, False, False, False, False, False]"
    by (simp add: encode_def h_def encode_loop_single paddingSuitableFor_eq replicate_7_False)
  ultimately show ?thesis
    by (simp add: h_def init_single decode_one_byte_padding)
qed

text \<open>
  The claim's last part fails: the three symbols \<open>XXX\<close> are encoded as \<open>10000000\<close>,
  and decoding that returns no symbol.
\<close>

theorem single_symbol_decode_counterexample:
  "HuffmanCode_init tblX = Inr hX
   \<and> encode hX [0x58, 0x58, 0x58] = Inr [True, False, False, False, False, False, False, False]
   \<and> decode hX [True, False, False, False, False, False, False, False] = Some (Inr [])
   \<and> decode hX [True, False, False, False, False, False, False, False]
       \<noteq> Some (Inr [0x58, 0x58, 0x58])"
  by code_simp

section \<open>The heap operations permute the list\<close>

lemma mset_update_move:
  assumes "i < length h" "j < length h"
  shows "mset (h[i := h ! j, j := x]) = mset (h[i := x])"
proof (cases "i = j")
  case True
  then show ?thesis by simp
next
  case False
  with assms show ?thesis
    by (simp add: mset_update nth_list_update)
qed

lemma siftdown_loop_mset:
  "pos < length heap \<Longrightarrow>
   mset (siftdown_loop f heap startpos pos newitem) = mset (heap[pos := newitem])"
proof (induction f heap startpos pos newitem rule: siftdown_loop.induct)
  case (1 f heap startpos pos newitem)
  let ?pp = "(pos - 1) div 2"
  show ?case
  proof (cases "pos > startpos \<and> f newitem (heap ! ?pp)")
    case True
    then have pp: "?pp < length heap" using "1.prems" by simp
    have "mset (siftdown_loop f (heap[pos := heap ! ?pp]) startpos ?pp newitem)
          = mset (heap[pos := heap ! ?pp, ?pp := newitem])"
      using True pp "1.IH" by simp
    also have "\<dots> = mset (heap[pos := newitem])"
      using "1.prems" pp by (rule mset_update_move)
    finally show ?thesis
      using True by (subst siftdown_loop.simps) simp
  next
    case False
    then show ?thesis
      by (subst siftdown_loop.simps) auto
  qed
qed

lemma smaller_child_range:
  "childpos < endpos \<Longrightarrow>
   childpos \<le> smaller_child f heap endpos childpos \<and> smaller_child f heap endpos childpos < endpos"
  by (simp add: smaller_child_def)

lemma siftup_loop_mset:
  "pos < length heap \<Longrightarrow> endpos = length heap \<Longrightarrow>
   siftup_loop f heap endpos pos childpos = (h', p') \<Longrightarrow>
   p' < length heap \<and> length h' = length heap \<and> mset (h'[p' := x]) = mset (heap[pos := x])"
proof (induction f heap endpos pos childpos arbitrary: h' p' rule: siftup_loop.induct)
  case (1 f heap endpos pos childpos)
  show ?case
  proof (cases "childpos < endpos")
    case True
    let ?c = "smaller_child f heap endpos childpos"
    have c: "?c < length heap"
      using smaller_child_range [OF True, of f heap] "1.prems" by simp
    have step: "siftup_loop f (heap[pos := heap ! ?c]) endpos ?c (2 * ?c + 1) = (h', p')"
      using "1.prems"(3) True by (subst (asm) siftup_loop.simps) simp
    have "p' < length (heap[pos := heap ! ?c]) \<and> length h' = length (heap[pos := heap ! ?c])
          \<and> mset (h'[p' := x]) = mset (heap[pos := heap ! ?c, ?c := x])"
      using True c "1.prems"(2) step by (intro "1.IH") simp_all
    moreover have "mset (heap[pos := heap ! ?c, ?c := x]) = mset (heap[pos := x])"
      using "1.prems"(1) c by (rule mset_update_move)
    ultimately show ?thesis by simp
  next
    case False
    then have "(h', p') = (heap, pos)"
      using "1.prems"(3) by (subst (asm) siftup_loop.simps) simp
    then show ?thesis using "1.prems" by simp
  qed
qed

lemma siftup_mset: "pos < length heap \<Longrightarrow> mset (siftup f heap pos) = mset heap"
proof -
  assume pos: "pos < length heap"
  obtain h' p' where hp: "siftup_loop f heap (length heap) pos (2 * pos + 1) = (h', p')"
    by (cases "siftup_loop f heap (length heap) pos (2 * pos + 1)")
  from siftup_loop_mset [OF pos refl hp, of "heap ! pos"]
  have p': "p' < length h'" and m: "mset (h'[p' := heap ! pos]) = mset heap"
    by simp_all
  have "siftup f heap pos = siftdown_loop f (h'[p' := heap ! pos]) pos p' (heap ! pos)"
    using hp p' by (simp add: siftup_def siftdown_def Let_def)
  also have "mset \<dots> = mset (h'[p' := heap ! pos, p' := heap ! pos])"
    using p' by (intro siftdown_loop_mset) simp
  finally show ?thesis using m by simp
qed

lemma fold_siftup_mset:
  "\<forall>i\<in>set is. i < length x \<Longrightarrow> mset (fold (\<lambda>i h. siftup f h i) is x) = mset x"
proof (induction "is" arbitrary: x)
  case Nil
  show ?case by simp
next
  case (Cons i "is")
  then show ?case by (simp add: siftup_mset)
qed

lemma heapify_mset [simp]: "mset (heapify f x) = mset x"
  unfolding heapify_def by (rule fold_siftup_mset) auto

lemma heappush_mset [simp]: "mset (heappush f heap item) = add_mset item (mset heap)"
proof -
  have "mset (heappush f heap item) = mset ((heap @ [item])[length heap := item])"
    unfolding heappush_def siftdown_def
    by (subst siftdown_loop_mset) simp_all
  then show ?thesis by simp
qed

lemma heappop_empty: "heappop f heap = Inl e \<longleftrightarrow> heap = [] \<and> e = IndexError"
  by (auto simp: heappop_def Let_def)

lemma heappop_mset:
  assumes "heappop f heap = Inr (x, heap')"
  shows "mset heap = add_mset x (mset heap')"
proof (cases heap rule: rev_cases)
  case Nil
  with assms show ?thesis by (simp add: heappop_def)
next
  case (snoc ys y)
  show ?thesis
  proof (cases "ys = []")
    case True
    with snoc assms show ?thesis by (simp add: heappop_def)
  next
    case False
    then have len: "0 < length ys" by simp
    from False snoc assms have x: "x = ys ! 0" and h: "heap' = siftup f (ys[0 := y]) 0"
      by (simp_all add: heappop_def)
    have "mset heap' = mset (ys[0 := y])"
      unfolding h using len by (intro siftup_mset) simp
    then show ?thesis
      using len snoc x by (simp add: mset_update)
  qed
qed

section \<open>The tree that the construction returns\<close>

lemma heap_symbols_single [simp]: "heap_symbols [t] = mset (leaves t)"
  by (simp add: heap_symbols_def)

lemma heap_symbols_pop:
  "heappop f m = Inr (t, m') \<Longrightarrow> heap_symbols m = mset (leaves t) + heap_symbols m'"
  by (drule heappop_mset) (simp add: heap_symbols_def)

lemma heap_symbols_push:
  "heap_symbols (heappush f m t) = mset (leaves t) + heap_symbols m"
  by (simp add: heap_symbols_def)

lemma heappop_nonempty:
  "m \<noteq> [] \<Longrightarrow> \<exists>t m'. heappop f m = Inr (t, m')"
  by (cases "heappop f m") (auto simp: heappop_empty)

lemma length_one_mset: "mset m = {#t#} \<Longrightarrow> m = [t]"
  by (cases m) auto

lemma build_loop_step:
  assumes "1 < length m"
  obtains t1 m1 t2 m2 where
    "heappop lt m = Inr (t1, m1)" "heappop lt m1 = Inr (t2, m2)"
    "build_loop m = build_loop (heappush lt m2 (fromTwoTrees t1 t2))"
    "Suc (length m1) = length m" "Suc (length m2) = length m1"
proof -
  from assms have "m \<noteq> []" by auto
  then obtain t1 m1 where p1: "heappop lt m = Inr (t1, m1)"
    using heappop_nonempty by blast
  then have l1: "Suc (length m1) = length m" by (rule length_heappop)
  with assms have "m1 \<noteq> []" by auto
  then obtain t2 m2 where p2: "heappop lt m1 = Inr (t2, m2)"
    using heappop_nonempty by blast
  then have l2: "Suc (length m2) = length m1" by (rule length_heappop)
  have "build_loop m = build_loop (heappush lt m2 (fromTwoTrees t1 t2))"
    using assms p1 p2 by (subst build_loop.simps) simp
  then show thesis using p1 p2 l1 l2 by (intro that)
qed

lemma build_loop_result:
  "m \<noteq> [] \<Longrightarrow>
   \<exists>t. build_loop m = Inr [t] \<and> mset (leaves t) = heap_symbols m
       \<and> (1 < length m \<longrightarrow> \<not> isSingleton t)"
proof (induction m rule: build_loop.induct)
  case (1 m)
  show ?case
  proof (cases "1 < length m")
    case False
    with "1.prems" obtain t where m: "m = [t]"
      by (cases m) auto
    have "build_loop m = Inr [t]"
      unfolding m by (subst build_loop.simps) simp
    with m False show ?thesis by simp
  next
    case True
    then obtain t1 m1 t2 m2 where
      p1: "heappop lt m = Inr (t1, m1)" and p2: "heappop lt m1 = Inr (t2, m2)" and
      eq: "build_loop m = build_loop (heappush lt m2 (fromTwoTrees t1 t2))" and
      l1: "Suc (length m1) = length m" and l2: "Suc (length m2) = length m1"
      by (rule build_loop_step)
    let ?m' = "heappush lt m2 (fromTwoTrees t1 t2)"
    have "length ?m' = Suc (length m2)" by simp
    then have ne: "?m' \<noteq> []" by (cases ?m') simp_all
    have syms: "heap_symbols ?m' = heap_symbols m"
      using heap_symbols_pop [OF p1] heap_symbols_pop [OF p2]
      by (simp add: heap_symbols_push fromTwoTrees_def)
    from "1.IH" [OF True p1 refl p2 refl ne]
    obtain t where t: "build_loop ?m' = Inr [t]" "mset (leaves t) = heap_symbols ?m'"
      "1 < length ?m' \<longrightarrow> \<not> isSingleton t"
      by blast
    have "\<not> isSingleton t"
    proof (cases "1 < length ?m'")
      case True
      with t show ?thesis by simp
    next
      case False
      then have "m2 = []" by simp
      then have "?m' = [fromTwoTrees t1 t2]"
        by (intro length_one_mset) simp
      then have "build_loop ?m' = Inr [fromTwoTrees t1 t2]"
        by (subst build_loop.simps) simp
      with t show ?thesis by (simp add: fromTwoTrees_def)
    qed
    with t eq syms show ?thesis by simp
  qed
qed

lemma heap_symbols_leaves:
  "heap_symbols (map (\<lambda>(b, f). Leaf f b) tbl) = mset (map fst tbl)"
  by (induction tbl) (auto simp: heap_symbols_def)

lemma init_result:
  assumes "tbl \<noteq> []"
  shows "\<exists>t. HuffmanCode_init tbl = Inr \<lparr>tree = t, code_array = search_tree t [] (replicate 256 [])\<rparr>
             \<and> mset (leaves t) = mset (map fst tbl)
             \<and> (1 < length tbl \<longrightarrow> \<not> isSingleton t)"
proof -
  let ?m = "heapify lt (map (\<lambda>(b, f). Leaf f b) tbl)"
  have len: "length ?m = length tbl"
    using mset_eq_length [OF heapify_mset, of lt "map (\<lambda>(b, f). Leaf f b) tbl"] by simp
  with assms have ne: "?m \<noteq> []" by auto
  have syms: "heap_symbols ?m = mset (map fst tbl)"
    using heap_symbols_leaves [of tbl] by (simp add: heap_symbols_def)
  from build_loop_result [OF ne] obtain t where
    t: "build_loop ?m = Inr [t]" "mset (leaves t) = heap_symbols ?m"
       "1 < length ?m \<longrightarrow> \<not> isSingleton t"
    by blast
  have "HuffmanCode_init tbl = Inr \<lparr>tree = t, code_array = search_tree t [] (replicate 256 [])\<rparr>"
    using t(1) by (simp add: HuffmanCode_init_def Let_def heappop_def)
  with t syms len show ?thesis by auto
qed

section \<open>The codeword table\<close>

lemma unat_byte_inj: "unat (a :: byte) = unat b \<longleftrightarrow> a = b"
  by (rule word_unat_eq_iff [symmetric])

lemma search_tree_other:
  "s \<notin> set (leaves t) \<Longrightarrow> search_tree t bitseq symbols ! unat s = symbols ! unat s"
  by (induction t arbitrary: bitseq symbols) (simp_all add: nth_list_update unat_byte_inj)

lemma search_tree_path:
  assumes "distinct (leaves t)" "length symbols = 256" "s \<in> set (leaves t)"
  shows "\<exists>p. search_tree t bitseq symbols ! unat s = bitseq @ p
             \<and> (\<forall>rest. traverse t (p @ rest) = Inr (s, rest))"
  using assms
proof (induction t arbitrary: bitseq symbols)
  case (Leaf f s')
  then show ?case using unat_byte_less [of s] by simp
next
  case (Node f l r)
  show ?case
  proof (cases "s \<in> set (leaves l)")
    case True
    with Node.prems have "s \<notin> set (leaves r)" by auto
    then have e: "search_tree (Node f l r) bitseq symbols ! unat s
                  = search_tree l (bitseq @ [False]) symbols ! unat s"
      by (simp add: search_tree_other)
    from Node.IH(1) [of symbols "bitseq @ [False]"] Node.prems True
    obtain p where "search_tree l (bitseq @ [False]) symbols ! unat s = (bitseq @ [False]) @ p"
      "\<forall>rest. traverse l (p @ rest) = Inr (s, rest)"
      by auto
    with e have "search_tree (Node f l r) bitseq symbols ! unat s = bitseq @ (False # p)
                 \<and> (\<forall>rest. traverse (Node f l r) ((False # p) @ rest) = Inr (s, rest))"
      by simp
    then show ?thesis by blast
  next
    case False
    with Node.prems have r: "s \<in> set (leaves r)" by auto
    from Node.IH(2) [of "search_tree l (bitseq @ [False]) symbols" "bitseq @ [True]"] Node.prems r
    obtain p where "search_tree (Node f l r) bitseq symbols ! unat s = (bitseq @ [True]) @ p"
      "\<forall>rest. traverse r (p @ rest) = Inr (s, rest)"
      by auto
    then have "search_tree (Node f l r) bitseq symbols ! unat s = bitseq @ (True # p)
                 \<and> (\<forall>rest. traverse (Node f l r) ((True # p) @ rest) = Inr (s, rest))"
      by simp
    then show ?thesis by blast
  qed
qed

lemma traverse_nonempty:
  assumes "\<not> isSingleton t" "\<forall>rest. traverse t (p @ rest) = Inr (s, rest)"
  shows "p \<noteq> []"
proof
  assume "p = []"
  with assms(2) have "traverse t [] = Inr (s, [])" by simp
  with assms(1) show False by (cases t) simp_all
qed

lemma init_tree:
  assumes "tbl \<noteq> []" "distinct (map fst tbl)"
  obtains t where
    "HuffmanCode_init tbl = Inr \<lparr>tree = t, code_array = search_tree t [] (replicate 256 [])\<rparr>"
    "set (leaves t) = set (map fst tbl)" "distinct (leaves t)"
    "1 < length tbl \<longrightarrow> \<not> isSingleton t"
proof -
  from init_result [OF assms(1)] obtain t where
    t: "HuffmanCode_init tbl = Inr \<lparr>tree = t, code_array = search_tree t [] (replicate 256 [])\<rparr>"
       "mset (leaves t) = mset (map fst tbl)" "1 < length tbl \<longrightarrow> \<not> isSingleton t"
    by blast
  from t(2) have "set (leaves t) = set (map fst tbl)" by (rule mset_eq_setD)
  moreover from t(2) assms(2) have "distinct (leaves t)"
    using mset_eq_imp_distinct_iff by blast
  ultimately show thesis using t(1,3) by (intro that)
qed

lemma codeword_path:
  assumes "HuffmanCode_init tbl = Inr h" "distinct (map fst tbl)" "b \<in> set (map fst tbl)"
  shows "\<exists>p. codewordFor h b = Inr p \<and> code_array h ! unat b = p
             \<and> (\<forall>rest. traverse (tree h) (p @ rest) = Inr (b, rest))
             \<and> (1 < length tbl \<longrightarrow> p \<noteq> [])"
proof -
  from assms(3) have "tbl \<noteq> []" by auto
  then obtain t where
    t: "HuffmanCode_init tbl = Inr \<lparr>tree = t, code_array = search_tree t [] (replicate 256 [])\<rparr>"
       "set (leaves t) = set (map fst tbl)" "distinct (leaves t)"
       "1 < length tbl \<longrightarrow> \<not> isSingleton t"
    using assms(2) by (rule init_tree)
  with assms(1) have h: "tree h = t" "code_array h = search_tree t [] (replicate 256 [])"
    by auto
  from search_tree_path [OF t(3), of "replicate 256 []" b "[]"] t(2) assms(3)
  obtain p where p: "search_tree t [] (replicate 256 []) ! unat b = p"
    "\<forall>rest. traverse t (p @ rest) = Inr (b, rest)"
    by auto
  have "codewordFor h b = Inr p"
    using p(1) h(2) unat_byte_less [of b] by (simp add: codewordFor_def)
  moreover have "1 < length tbl \<longrightarrow> p \<noteq> []"
    using t(4) p(2) traverse_nonempty by blast
  ultimately show ?thesis using p h by auto
qed

lemma decode_loop_concat:
  assumes "\<not> isSingleton (tree h)"
    "\<forall>s\<in>set ss. \<forall>rest. traverse (tree h) (cw s @ rest) = Inr (s, rest)"
  shows "decode_loop h (concat (map cw ss)) acc = Some (Inr (acc @ ss))"
  using assms(2)
proof (induction ss arbitrary: acc)
  case Nil
  show ?case by (subst decode_loop.simps) simp
next
  case (Cons s ss)
  then have tr: "\<forall>rest. traverse (tree h) (cw s @ rest) = Inr (s, rest)" by simp
  with assms(1) have "cw s \<noteq> []" by (rule traverse_nonempty)
  moreover have "traverseTree h (cw s @ concat (map cw ss)) = Inr (s, concat (map cw ss))"
    using tr by (simp add: traverseTree_def)
  moreover have "decode_loop h (concat (map cw ss)) (acc @ [s]) = Some (Inr ((acc @ [s]) @ ss))"
    using Cons.prems by (intro Cons.IH) simp
  ultimately show ?case
    by (subst decode_loop.simps) simp
qed

lemma roundtrip_general:
  assumes "1 < length tbl" "distinct (map fst tbl)" "set plain \<subseteq> set (map fst tbl)"
  shows "\<exists>h e. HuffmanCode_init tbl = Inr h \<and> encode h plain = Inr e
               \<and> decode h e = Some (Inr plain)"
proof -
  from assms(1) have "tbl \<noteq> []" by auto
  then obtain t where
    t: "HuffmanCode_init tbl = Inr \<lparr>tree = t, code_array = search_tree t [] (replicate 256 [])\<rparr>"
       "1 < length tbl \<longrightarrow> \<not> isSingleton t"
    using assms(2) by (rule init_tree)
  define h where "h = \<lparr>tree = t, code_array = search_tree t [] (replicate 256 [])\<rparr>"
  have init: "HuffmanCode_init tbl = Inr h" using t(1) by (simp add: h_def)
  have node: "\<not> isSingleton (tree h)" using t(2) assms(1) by (simp add: h_def)
  let ?cw = "\<lambda>b. code_array h ! unat b"
  let ?cws = "concat (map ?cw plain)"
  have paths: "\<forall>s\<in>set plain. \<forall>rest. traverse (tree h) (?cw s @ rest) = Inr (s, rest)"
    using codeword_path [OF init assms(2)] assms(3) by blast
  have enc: "encode h plain = Inr (?cws @ paddingSuitableFor ?cws)"
    using init_code_array_length [OF init] by (rule encode_eq)
  have "decode h (?cws @ paddingSuitableFor ?cws) = decode_loop h ?cws []"
    by (simp add: decode_def removePadding_padding)
  also have "\<dots> = Some (Inr ([] @ plain))"
    using node paths by (rule decode_loop_concat)
  finally show ?thesis using init enc by simp
qed

lemma full_table_keys:
  assumes "length tbl = 256" "distinct (map fst tbl)"
  shows "set (map fst tbl) = (UNIV :: byte set)"
proof -
  have "card (set (map fst tbl)) = 256"
    using distinct_card [OF assms(2)] assms(1) by simp
  moreover have "card (UNIV :: byte set) = 256"
    by (simp add: card_word)
  ultimately show ?thesis
    by (intro card_subset_eq) simp_all
qed

section \<open>Tables with all 256 symbols\<close>

lemma distinct_bytes: "distinct (map (word_of_nat :: nat \<Rightarrow> byte) [0 ..< 256])"
proof -
  have "inj_on (word_of_nat :: nat \<Rightarrow> byte) {0 ..< 256}"
  proof (rule inj_onI)
    fix i j :: nat
    assume "i \<in> {0 ..< 256}" "j \<in> {0 ..< 256}"
      and "(word_of_nat i :: byte) = word_of_nat j"
    then have "unat (word_of_nat i :: byte) = unat (word_of_nat j :: byte)" by simp
    then have "i mod 256 = j mod 256" by (simp add: unat_of_nat)
    with \<open>i \<in> {0 ..< 256}\<close> \<open>j \<in> {0 ..< 256}\<close> show "i = j" by simp
  qed
  then show ?thesis by (simp add: distinct_map)
qed

lemma table_keys: "map fst (map (\<lambda>i. (word_of_nat i, w i)) [0 ..< 256]) = map word_of_nat [0 ..< 256]"
  by (simp add: comp_def)

lemma tblU_full: "length tblU = 256 \<and> distinct (map fst tblU)"
  unfolding tblU_def table_keys using distinct_bytes by simp

lemma tblZ_full: "length tblZ = 256 \<and> distinct (map fst tblZ)"
  unfolding tblZ_def table_keys using distinct_bytes by simp

lemma tblU_valid: "list_all (\<lambda>w. 0 < w) (map snd tblU) \<and> sum_list (map snd tblU) = 1"
proof -
  have "map snd tblU = replicate 256 (1 / 256)"
    by (simp add: tblU_def comp_def map_replicate_const)
  then show ?thesis by (simp add: sum_list_replicate list_all_iff)
qed

lemma tblZ_zero: "(0x42, 0) \<in> set tblZ"
proof -
  have "(word_of_nat 66 :: byte, if (66::nat) = 65 then 1 else (0::real)) \<in> set tblZ"
    unfolding tblZ_def set_map by (rule imageI) simp
  then show ?thesis by simp
qed

section \<open>Round trip\<close>

text \<open>
  C1. For a frequency table with 256 entries, one for each byte, and every sequence of
  symbols, \<^verbatim>\<open>encode\<close> returns a bit sequence and \<^verbatim>\<open>decode\<close> of it returns the
  sequence. The weights play no part: a valid table (non-negative weights of sum 1,
  non-zero for the symbols of the sequence) is a special case.
\<close>

theorem decode_encode_roundtrip:
  assumes "length tbl = 256" "distinct (map fst tbl)"
  shows "\<exists>h e. HuffmanCode_init tbl = Inr h \<and> encode h plain = Inr e
               \<and> decode h e = Some (Inr plain)"
proof -
  have "set plain \<subseteq> set (map fst tbl)"
    using full_table_keys [OF assms] by simp
  moreover have "1 < length tbl" using assms(1) by simp
  ultimately show ?thesis using assms(2) by (intro roundtrip_general)
qed

theorem decode_encode_roundtrip_witness:
  "length tblU = 256 \<and> distinct (map fst tblU)
   \<and> list_all (\<lambda>w. 0 < w) (map snd tblU) \<and> sum_list (map snd tblU) = 1
   \<and> (\<exists>h e. HuffmanCode_init tblU = Inr h \<and> encode h [0x41, 0x42, 0x41] = Inr e
             \<and> decode h e = Some (Inr [0x41, 0x42, 0x41]))"
  using decode_encode_roundtrip [of tblU "[0x41, 0x42, 0x41]"] tblU_full tblU_valid
  by blast

section \<open>Prefix freedom\<close>

lemma prefix_free_general:
  assumes "HuffmanCode_init tbl = Inr h" "distinct (map fst tbl)"
    "a \<in> set (map fst tbl)" "b \<in> set (map fst tbl)" "a \<noteq> b"
  shows "\<exists>ca cb. codewordFor h a = Inr ca \<and> codewordFor h b = Inr cb
                 \<and> \<not> prefix ca cb \<and> \<not> prefix cb ca"
proof -
  from codeword_path [OF assms(1,2,3)] obtain ca where
    ca: "codewordFor h a = Inr ca" "\<forall>rest. traverse (tree h) (ca @ rest) = Inr (a, rest)"
    by blast
  from codeword_path [OF assms(1,2,4)] obtain cb where
    cb: "codewordFor h b = Inr cb" "\<forall>rest. traverse (tree h) (cb @ rest) = Inr (b, rest)"
    by blast
  have "\<not> prefix ca cb"
  proof
    assume "prefix ca cb"
    then obtain r where "cb = ca @ r" by (auto simp: prefix_def)
    with ca(2) have "traverse (tree h) cb = Inr (a, r)" by simp
    moreover from cb(2) have "traverse (tree h) cb = Inr (b, [])"
      by (metis append_Nil2)
    ultimately show False using assms(5) by simp
  qed
  moreover have "\<not> prefix cb ca"
  proof
    assume "prefix cb ca"
    then obtain r where "ca = cb @ r" by (auto simp: prefix_def)
    with cb(2) have "traverse (tree h) ca = Inr (b, r)" by simp
    moreover from ca(2) have "traverse (tree h) ca = Inr (a, [])"
      by (metis append_Nil2)
    ultimately show False using assms(5) by simp
  qed
  ultimately show ?thesis using ca(1) cb(1) by blast
qed

text \<open>
  C9. In the code built from a frequency table with 256 entries, one for each byte, the
  codewords of two distinct symbols are not prefixes of one another.
\<close>

theorem codewords_prefix_free:
  assumes "length tbl = 256" "distinct (map fst tbl)" "a \<noteq> b"
  shows "\<exists>h ca cb. HuffmanCode_init tbl = Inr h
           \<and> codewordFor h a = Inr ca \<and> codewordFor h b = Inr cb
           \<and> \<not> prefix ca cb \<and> \<not> prefix cb ca"
proof -
  have keys: "set (map fst tbl) = UNIV" using assms(1,2) by (rule full_table_keys)
  from assms(1) have "tbl \<noteq> []" by auto
  then obtain t where "HuffmanCode_init tbl
      = Inr \<lparr>tree = t, code_array = search_tree t [] (replicate 256 [])\<rparr>"
    using assms(2) by (rule init_tree)
  then obtain h where h: "HuffmanCode_init tbl = Inr h" by blast
  from prefix_free_general [OF h assms(2) _ _ assms(3)] keys h
  show ?thesis by auto
qed

theorem codewords_prefix_free_witness:
  "length tblU = 256 \<and> distinct (map fst tblU) \<and> (0x41 :: byte) \<noteq> 0x42
   \<and> (\<exists>h ca cb. HuffmanCode_init tblU = Inr h
           \<and> codewordFor h 0x41 = Inr ca \<and> codewordFor h 0x42 = Inr cb
           \<and> \<not> prefix ca cb \<and> \<not> prefix cb ca)"
proof -
  have ne: "(0x41 :: byte) \<noteq> 0x42" by simp
  from tblU_full have "length tblU = 256" "distinct (map fst tblU)" by simp_all
  from codewords_prefix_free [OF this ne] tblU_full ne show ?thesis by blast
qed

section \<open>Every symbol of a full table has a codeword\<close>

lemma encode_total:
  "HuffmanCode_init tbl = Inr h \<Longrightarrow> \<exists>e. encode h plain = Inr e"
  using encode_eq [OF init_code_array_length] by blast

text \<open>
  C10. After the construction from a frequency table with 256 entries, one for each
  byte, whatever the weights are, every byte is a leaf of the tree and its entry in
  \<^verbatim>\<open>code_array\<close> is its non-empty path from the root; \<^verbatim>\<open>codewordFor\<close> returns it and
  \<^verbatim>\<open>encode\<close> returns a bit sequence for every input.
\<close>

theorem every_symbol_has_codeword:
  assumes "length tbl = 256" "distinct (map fst tbl)"
  shows "\<exists>h. HuffmanCode_init tbl = Inr h
           \<and> length (code_array h) = 256
           \<and> (\<forall>b. b \<in> set (leaves (tree h))
                  \<and> (\<exists>p. codewordFor h b = Inr p \<and> p \<noteq> []
                          \<and> traverse (tree h) p = Inr (b, [])))
           \<and> (\<forall>plain. \<exists>e. encode h plain = Inr e)"
proof -
  have keys: "set (map fst tbl) = UNIV" using assms by (rule full_table_keys)
  from assms(1) have "tbl \<noteq> []" by auto
  then obtain t where
    t: "HuffmanCode_init tbl = Inr \<lparr>tree = t, code_array = search_tree t [] (replicate 256 [])\<rparr>"
       "set (leaves t) = set (map fst tbl)"
    using assms(2) by (rule init_tree)
  define h where "h = \<lparr>tree = t, code_array = search_tree t [] (replicate 256 [])\<rparr>"
  have init: "HuffmanCode_init tbl = Inr h" using t(1) by (simp add: h_def)
  have "\<exists>p. codewordFor h b = Inr p \<and> p \<noteq> [] \<and> traverse (tree h) p = Inr (b, [])" for b
  proof -
    have "b \<in> set (map fst tbl)" using keys by simp
    from codeword_path [OF init assms(2) this] assms(1)
    obtain p where "codewordFor h b = Inr p" "p \<noteq> []"
      "\<forall>rest. traverse (tree h) (p @ rest) = Inr (b, rest)"
      by auto
    moreover from this(3) have "traverse (tree h) p = Inr (b, [])"
      by (metis append_Nil2)
    ultimately show ?thesis by blast
  qed
  moreover have "b \<in> set (leaves (tree h))" for b
    using t(2) keys by (simp add: h_def)
  moreover have "length (code_array h) = 256"
    using init by (rule init_code_array_length)
  moreover have "\<forall>plain. \<exists>e. encode h plain = Inr e"
    using init encode_total by blast
  ultimately show ?thesis using init by blast
qed

theorem every_symbol_has_codeword_witness:
  "length tblZ = 256 \<and> distinct (map fst tblZ)
   \<and> (\<exists>h. HuffmanCode_init tblZ = Inr h
           \<and> length (code_array h) = 256
           \<and> (\<forall>b. b \<in> set (leaves (tree h))
                  \<and> (\<exists>p. codewordFor h b = Inr p \<and> p \<noteq> []
                          \<and> traverse (tree h) p = Inr (b, [])))
           \<and> (\<forall>plain. \<exists>e. encode h plain = Inr e))"
  using every_symbol_has_codeword [of tblZ] tblZ_full by blast

section \<open>Symbols of weight zero\<close>

lemma zero_weight_general:
  assumes "length tbl = 256" "distinct (map fst tbl)"
  shows "\<exists>h p e. HuffmanCode_init tbl = Inr h
           \<and> b \<in> set (leaves (tree h))
           \<and> codewordFor h b = Inr p \<and> p \<noteq> [] \<and> traverse (tree h) p = Inr (b, [])
           \<and> encode h plain = Inr e
           \<and> (\<forall>plain'. \<exists>e'. encode h plain' = Inr e')"
proof -
  have keys: "set (map fst tbl) = UNIV" using assms by (rule full_table_keys)
  from assms(1) have "tbl \<noteq> []" by auto
  then obtain t where
    t: "HuffmanCode_init tbl = Inr \<lparr>tree = t, code_array = search_tree t [] (replicate 256 [])\<rparr>"
       "set (leaves t) = set (map fst tbl)"
    using assms(2) by (rule init_tree)
  define h where "h = \<lparr>tree = t, code_array = search_tree t [] (replicate 256 [])\<rparr>"
  have init: "HuffmanCode_init tbl = Inr h" using t(1) by (simp add: h_def)
  have leaf: "b \<in> set (leaves (tree h))" using t(2) keys by (simp add: h_def)
  have "b \<in> set (map fst tbl)" using keys by simp
  from codeword_path [OF init assms(2) this] assms(1)
  obtain p where p: "codewordFor h b = Inr p" "p \<noteq> []"
    "\<forall>rest. traverse (tree h) (p @ rest) = Inr (b, rest)"
    by auto
  from p(3) have path: "traverse (tree h) p = Inr (b, [])"
    by (metis append_Nil2)
  have all: "\<forall>plain'. \<exists>e'. encode h plain' = Inr e'"
    using encode_total [OF init] by blast
  then obtain e where "encode h plain = Inr e" by blast
  with init leaf p(1,2) path all show ?thesis by blast
qed

text \<open>
  C4, as the code has it. A symbol whose weight in a 256-entry frequency table is zero
  is a leaf of the tree like any other: its entry in the codeword table is its
  non-empty path from the root, and \<^verbatim>\<open>encode\<close> of a sequence that contains it returns
  a bit sequence. \<^verbatim>\<open>encode\<close> raises no error on any input.
\<close>

theorem zero_weight_symbol_is_encoded:
  fixes tbl :: "(byte \<times> 'w::{ord,plus,zero}) list"
  assumes "length tbl = 256" "distinct (map fst tbl)" "(b, 0) \<in> set tbl" "b \<in> set plain"
  shows "\<exists>h p e. HuffmanCode_init tbl = Inr h
           \<and> b \<in> set (leaves (tree h))
           \<and> codewordFor h b = Inr p \<and> p \<noteq> [] \<and> traverse (tree h) p = Inr (b, [])
           \<and> encode h plain = Inr e
           \<and> (\<forall>plain'. \<exists>e'. encode h plain' = Inr e')"
  using assms(1,2) by (rule zero_weight_general)

theorem zero_weight_symbol_is_encoded_witness:
  "length tblZ = 256 \<and> distinct (map fst tblZ) \<and> (0x42, 0) \<in> set tblZ
   \<and> 0x42 \<in> set [0x41, 0x42 :: byte]
   \<and> (\<exists>h p e. HuffmanCode_init tblZ = Inr h
           \<and> 0x42 \<in> set (leaves (tree h))
           \<and> codewordFor h 0x42 = Inr p \<and> p \<noteq> [] \<and> traverse (tree h) p = Inr (0x42, [])
           \<and> encode h [0x41, 0x42] = Inr e
           \<and> (\<forall>plain'. \<exists>e'. encode h plain' = Inr e'))"
proof -
  have m: "0x42 \<in> set [0x41, 0x42 :: byte]" by simp
  from tblZ_full have f: "length tblZ = 256" "distinct (map fst tblZ)" by simp_all
  from zero_weight_symbol_is_encoded [OF f tblZ_zero m] f tblZ_zero m
  show ?thesis by blast
qed

text \<open>
  The claim fails on the table \<open>tblZ\<close>: the symbol \<open>0x42\<close> has weight zero there, and
  encoding it raises no error.
\<close>

theorem zero_weight_counterexample:
  "(0x42, 0) \<in> set tblZ
   \<and> (case HuffmanCode_init tblZ of
        Inl e \<Rightarrow> False
      | Inr h \<Rightarrow> (case encode h [0x42] of Inl e \<Rightarrow> False | Inr bs \<Rightarrow> True))"
proof -
  from tblZ_full have f: "length tblZ = 256" "distinct (map fst tblZ)" by simp_all
  from zero_weight_general [OF f, of "0x42" "[0x42]"]
  obtain h e where "HuffmanCode_init tblZ = Inr h" "encode h [0x42] = Inr e" by blast
  then show ?thesis using tblZ_zero by simp
qed

section \<open>The decoder and truncated input\<close>

lemma traverse_spec_decoder:
  "\<not> isSingleton pos \<Longrightarrow>
   (case traverse pos bs of
      Inr (s, rest) \<Rightarrow>
        length rest < length bs \<and> spec_decoder start pos bs out = spec_decoder start start rest (out @ [s])
    | Inl e \<Rightarrow>
        e = IndexError \<and>
        (\<exists>pos'. spec_decoder start pos bs out = (pos', out) \<and> size pos' \<le> size pos
                \<and> (bs \<noteq> [] \<longrightarrow> size pos' < size pos)))"
proof (induction bs arbitrary: pos)
  case Nil
  then show ?case by (cases pos) simp_all
next
  case (Cons b bs)
  from Cons.prems obtain f l r where pos: "pos = Node f l r" by (cases pos) simp_all
  let ?c = "if b then r else l"
  have sz: "size ?c < size pos" using pos by simp
  show ?case
  proof (cases ?c)
    case (Leaf f' s)
    then show ?thesis using pos by (auto split: if_splits)
  next
    case (Node f' l' r')
    then have c: "\<not> isSingleton ?c" by simp
    have tr: "traverse pos (b # bs) = traverse ?c bs" using pos by simp
    have sp: "spec_decoder start pos (b # bs) out = spec_decoder start ?c bs out"
      using pos Node by (auto split: if_splits)
    from Cons.IH [OF c] sz show ?thesis
      unfolding tr sp by (auto split: sum.splits prod.splits)
  qed
qed

lemma decode_loop_spec_decoder:
  assumes "\<not> isSingleton (tree h)"
  shows "decode_loop h bs acc =
         Some (case spec_decoder (tree h) (tree h) bs acc of
                 (pos, out) \<Rightarrow> if pos = tree h then Inr out else Inl IndexError)"
proof (induction "length bs" arbitrary: bs acc rule: less_induct)
  case less
  show ?case
  proof (cases "bs = []")
    case True
    then show ?thesis by (subst decode_loop.simps) simp
  next
    case False
    note T = traverse_spec_decoder [OF assms, where bs = bs and start = "tree h" and out = acc]
    show ?thesis
    proof (cases "traverse (tree h) bs")
      case (Inl e)
      with T False obtain pos' where
        "e = IndexError" "spec_decoder (tree h) (tree h) bs acc = (pos', acc)"
        "size pos' < size (tree h)"
        by auto
      moreover from this(3) have "pos' \<noteq> tree h" by auto
      ultimately show ?thesis
        using Inl False by (subst decode_loop.simps) (simp add: traverseTree_def)
    next
      case (Inr p)
      obtain s rest where p: "p = (s, rest)" by (cases p)
      with T Inr have len: "length rest < length bs"
        and sp: "spec_decoder (tree h) (tree h) bs acc = spec_decoder (tree h) (tree h) rest (acc @ [s])"
        by simp_all
      have "decode_loop h bs acc = decode_loop h rest (acc @ [s])"
        using Inr p False by (subst decode_loop.simps) (simp add: traverseTree_def)
      also have "\<dots> = Some (case spec_decoder (tree h) (tree h) rest (acc @ [s]) of
                 (pos, out) \<Rightarrow> if pos = tree h then Inr out else Inl IndexError)"
        using len by (rule less)
      finally show ?thesis by (simp only: sp)
    qed
  qed
qed

text \<open>
  C5. For a code built from a table with at least two entries, \<^verbatim>\<open>decode\<close> of a padded
  bit sequence returns what the specification's state machine gives on the payload:
  the emitted symbols when the position is back at the root as the bits run out, and
  an \<^verbatim>\<open>IndexError\<close> (the specification's \<open>TruncatedCodeError\<close>) when the position is
  inside the tree, part-way through a codeword.
\<close>

theorem decode_truncated:
  assumes "HuffmanCode_init tbl = Inr h" "1 < length tbl"
    "removePadding encodedAndPaddedBits = Inr payload"
  shows "decode h encodedAndPaddedBits =
         Some (case spec_decoder (tree h) (tree h) payload [] of
                 (pos, out) \<Rightarrow> if pos = tree h then Inr out else Inl IndexError)"
proof -
  from assms(2) have "tbl \<noteq> []" by auto
  from init_result [OF this] assms(1,2) have "\<not> isSingleton (tree h)" by auto
  then show ?thesis
    using assms(3) by (simp add: decode_def decode_loop_spec_decoder)
qed

lemma decode_truncated_values:
  "removePadding [True, False, True, True, False, False, False, False] = Inr [True, False, True]"
  "spec_decoder (tree hA) (tree hA) [True, False, True] []
     = (Node (2/3) (Leaf (1/3) 0x41) (Leaf (1/3) 0x42), [0x41])"
  "removePadding [True, False, False, True, False, False, False, False] = Inr [True, False, False]"
  "spec_decoder (tree hA) (tree hA) [True, False, False] [] = (tree hA, [0x41, 0x43])"
  "(1::nat) < length tblA"
  by code_simp+

theorem decode_truncated_witness:
  "HuffmanCode_init tblA = Inr hA \<and> 1 < length tblA
   \<and> removePadding [True, False, True, True, False, False, False, False] = Inr [True, False, True]
   \<and> decode hA [True, False, True, True, False, False, False, False] = Some (Inl IndexError)
   \<and> removePadding [True, False, False, True, False, False, False, False] = Inr [True, False, False]
   \<and> decode hA [True, False, False, True, False, False, False, False] = Some (Inr [0x41, 0x43])"
proof -
  have ne: "Node (2/3) (Leaf (1/3) 0x41) (Leaf (1/3) 0x42) \<noteq> tree hA"
    by (simp add: hA_def)
  have "decode hA [True, False, True, True, False, False, False, False] = Some (Inl IndexError)"
    using decode_truncated [OF init_tblA decode_truncated_values(5,1)] ne
    by (simp add: decode_truncated_values(2))
  moreover
  have "decode hA [True, False, False, True, False, False, False, False] = Some (Inr [0x41, 0x43])"
    using decode_truncated [OF init_tblA decode_truncated_values(5,3)]
    by (simp add: decode_truncated_values(4))
  ultimately show ?thesis
    using init_tblA decode_truncated_values(1,3,5) by simp
qed

section \<open>The queue is a heap\<close>

lemma desc_ge: "desc k p \<Longrightarrow> k \<le> p"
  by (induction rule: desc.induct) simp_all

lemma desc_parent:
  assumes "desc k p" "p \<noteq> k"
  shows "0 < p \<and> desc k ((p - 1) div 2)"
  using assms(1)
proof (cases rule: desc.cases)
  case desc_self
  with assms(2) show ?thesis by simp
next
  case (desc_left q)
  then show ?thesis by simp
next
  case (desc_right q)
  then show ?thesis by simp
qed

lemma desc_zero: "desc 0 p"
proof (induction p rule: less_induct)
  case (less p)
  show ?case
  proof (cases "p = 0")
    case True
    then show ?thesis by (simp add: desc_self)
  next
    case False
    then have d: "desc 0 ((p - 1) div 2)" by (intro less) simp
    from False have "p = 2 * ((p - 1) div 2) + 1 \<or> p = 2 * ((p - 1) div 2) + 2" by arith
    then show ?thesis
    proof
      assume e: "p = 2 * ((p - 1) div 2) + 1"
      show ?thesis by (subst e) (rule desc_left [OF d])
    next
      assume e: "p = 2 * ((p - 1) div 2) + 2"
      show ?thesis by (subst e) (rule desc_right [OF d])
    qed
  qed
qed

lemma parent_eq: "0 < (j::nat) \<Longrightarrow> ((j - 1) div 2 = p) = (j = 2 * p + 1 \<or> j = 2 * p + 2)"
  by arith

lemma strict_weak_asym: "strict_weak f \<Longrightarrow> f x y \<Longrightarrow> \<not> f y x"
  unfolding strict_weak_def by blast

lemma strict_weak_irrefl: "strict_weak f \<Longrightarrow> \<not> f x x"
  using strict_weak_asym [of f x x] by blast

lemma strict_weak_trans: "strict_weak f \<Longrightarrow> \<not> f y x \<Longrightarrow> \<not> f z y \<Longrightarrow> \<not> f z x"
  unfolding strict_weak_def by blast

lemma hole_inv_parent:
  assumes "hole_inv f k h p" "p \<noteq> k"
  shows "0 < p" "(p - 1) div 2 < p" "k \<le> (p - 1) div 2" "desc k ((p - 1) div 2)"
proof -
  from assms have d: "desc k p" by (simp add: hole_inv_def)
  from desc_parent [OF d assms(2)] show p: "0 < p" and dp: "desc k ((p - 1) div 2)"
    by simp_all
  from p show "(p - 1) div 2 < p" by arith
  from dp show "k \<le> (p - 1) div 2" by (rule desc_ge)
qed

lemma hole_inv_edge:
  "hole_inv f k h p \<Longrightarrow> 0 < j \<Longrightarrow> j < length h \<Longrightarrow> k \<le> (j - 1) div 2 \<Longrightarrow> j \<noteq> p \<Longrightarrow>
   (j - 1) div 2 \<noteq> p \<Longrightarrow> \<not> f (h ! j) (h ! ((j - 1) div 2))"
  unfolding hole_inv_def edge_ok_def by blast

lemma hole_inv_child:
  "hole_inv f k h p \<Longrightarrow> p \<noteq> k \<Longrightarrow> c < length h \<Longrightarrow> c = 2 * p + 1 \<or> c = 2 * p + 2 \<Longrightarrow>
   \<not> f (h ! c) (h ! ((p - 1) div 2))"
  unfolding hole_inv_def by blast

lemma hole_invI:
  assumes "p < length h" "desc k p"
    "\<And>j. 0 < j \<Longrightarrow> j < length h \<Longrightarrow> k \<le> (j - 1) div 2 \<Longrightarrow> j \<noteq> p \<Longrightarrow>
       (j - 1) div 2 \<noteq> p \<Longrightarrow> edge_ok f h j"
    "\<And>c. p \<noteq> k \<Longrightarrow> c < length h \<Longrightarrow> c = 2 * p + 1 \<or> c = 2 * p + 2 \<Longrightarrow>
       \<not> f (h ! c) (h ! ((p - 1) div 2))"
  shows "hole_inv f k h p"
  unfolding hole_inv_def using assms by simp

lemma hole_inv_move_up:
  assumes sw: "strict_weak f" and inv: "hole_inv f k h p" and pk: "p \<noteq> k"
  shows "hole_inv f k (h[p := h ! ((p - 1) div 2)]) ((p - 1) div 2)"
proof -
  let ?pp = "(p - 1) div 2"
  let ?h = "h[p := h ! ?pp]"
  note par = hole_inv_parent [OF inv pk]
  from inv have p: "p < length h" by (simp add: hole_inv_def)
  have A: "edge_ok f ?h j"
    if j: "0 < j" "j < length ?h" "k \<le> (j - 1) div 2" "j \<noteq> ?pp" "(j - 1) div 2 \<noteq> ?pp" for j
  proof (cases "(j - 1) div 2 = p")
    case True
    then have jp: "j \<noteq> p" using j(1) by arith
    have "j = 2 * p + 1 \<or> j = 2 * p + 2" using True j(1) by arith
    moreover have "j < length h" using j(2) by simp
    ultimately have "\<not> f (h ! j) (h ! ?pp)"
      using inv pk by (intro hole_inv_child)
    then show ?thesis using True jp p by (simp add: edge_ok_def)
  next
    case False
    have jp: "j \<noteq> p" using j(5) by auto
    have "j < length h" using j(2) by simp
    then have "\<not> f (h ! j) (h ! ((j - 1) div 2))"
      using inv j(1,3) jp False by (intro hole_inv_edge)
    then show ?thesis using False jp by (simp add: edge_ok_def)
  qed
  have C: "\<not> f (?h ! c) (?h ! ((?pp - 1) div 2))"
    if c: "?pp \<noteq> k" "c < length ?h" "c = 2 * ?pp + 1 \<or> c = 2 * ?pp + 2" for c
  proof -
    have d: "desc k ?pp" by (rule par(4))
    from desc_parent [OF d c(1)] have pp: "0 < ?pp" "desc k ((?pp - 1) div 2)" by simp_all
    then have kpp: "k \<le> (?pp - 1) div 2" by (auto dest: desc_ge)
    have ne: "(?pp - 1) div 2 \<noteq> p" using par(2) pp(1) by arith
    have "?pp < length h" "?pp \<noteq> p" using p par(2) by simp_all
    then have e1: "\<not> f (h ! ?pp) (h ! ((?pp - 1) div 2))"
      using inv pp(1) kpp ne by (intro hole_inv_edge)
    show ?thesis
    proof (cases "c = p")
      case True
      then show ?thesis using p ne e1 by simp
    next
      case False
      have cpar: "(c - 1) div 2 = ?pp" and c0: "0 < c" using c(3) by arith+
      have "c < length h" "k \<le> (c - 1) div 2" "(c - 1) div 2 \<noteq> p"
        using c(2) par(2,3) cpar by simp_all
      then have "\<not> f (h ! c) (h ! ((c - 1) div 2))"
        using inv c0 False by (intro hole_inv_edge)
      then have "\<not> f (h ! c) (h ! ?pp)" unfolding cpar .
      with e1 have "\<not> f (h ! c) (h ! ((?pp - 1) div 2))"
        using strict_weak_trans [OF sw] by blast
      then show ?thesis using False ne by simp
    qed
  qed
  show ?thesis
  proof (rule hole_invI)
    show "?pp < length ?h" using p par(2) by simp
    show "desc k ?pp" by (rule par(4))
    show "edge_ok f ?h j"
      if "0 < j" "j < length ?h" "k \<le> (j - 1) div 2" "j \<noteq> ?pp" "(j - 1) div 2 \<noteq> ?pp" for j
      using that by (rule A)
    show "\<not> f (?h ! c) (?h ! ((?pp - 1) div 2))"
      if "?pp \<noteq> k" "c < length ?h" "c = 2 * ?pp + 1 \<or> c = 2 * ?pp + 2" for c
      using that by (rule C)
  qed
qed

lemma hole_inv_length: "hole_inv f k h p \<Longrightarrow> p < length h"
  by (simp add: hole_inv_def)

lemma hole_inv_move_up_children:
  assumes sw: "strict_weak f" and inv: "hole_inv f k h p" and pk: "p \<noteq> k"
    and less: "f x (h ! ((p - 1) div 2))"
    and c: "c < length h" "c = 2 * ((p - 1) div 2) + 1 \<or> c = 2 * ((p - 1) div 2) + 2"
  shows "\<not> f (h[p := h ! ((p - 1) div 2)] ! c) x"
proof -
  let ?pp = "(p - 1) div 2"
  note par = hole_inv_parent [OF inv pk]
  have p: "p < length h" using inv by (rule hole_inv_length)
  have nx: "\<not> f (h ! ?pp) x" using sw less by (rule strict_weak_asym)
  show ?thesis
  proof (cases "c = p")
    case True
    then show ?thesis using p nx by simp
  next
    case False
    have cpar: "(c - 1) div 2 = ?pp" and c0: "0 < c" using c(2) by arith+
    have "k \<le> (c - 1) div 2" "(c - 1) div 2 \<noteq> p" using par(2,3) cpar by simp_all
    then have "\<not> f (h ! c) (h ! ((c - 1) div 2))"
      using inv c0 c(1) False by (intro hole_inv_edge)
    then have "\<not> f (h ! c) (h ! ?pp)" unfolding cpar .
    with nx have "\<not> f (h ! c) x" using strict_weak_trans [OF sw] by blast
    then show ?thesis using False by simp
  qed
qed

lemma hole_inv_fill:
  assumes inv: "hole_inv f k h p"
    and D: "\<And>c. c < length h \<Longrightarrow> c = 2 * p + 1 \<or> c = 2 * p + 2 \<Longrightarrow> \<not> f (h ! c) x"
    and stop: "p \<noteq> k \<Longrightarrow> \<not> f x (h ! ((p - 1) div 2))"
  shows "heap_above f k (h[p := x])"
  unfolding heap_above_def
proof (intro allI impI, elim conjE)
  fix j
  assume j: "0 < j" "j < length (h[p := x])" "k \<le> (j - 1) div 2"
  have p: "p < length h" using inv by (rule hole_inv_length)
  have jl: "j < length h" using j(2) by simp
  show "edge_ok f (h[p := x]) j"
  proof (cases "j = p")
    case True
    have "(p - 1) div 2 < p" using j(1) True by arith
    with j(3) True have pk: "p \<noteq> k" by auto
    have "(p - 1) div 2 \<noteq> p" using \<open>(p - 1) div 2 < p\<close> by simp
    then show ?thesis using True p stop [OF pk] by (simp add: edge_ok_def)
  next
    case jp: False
    show ?thesis
    proof (cases "(j - 1) div 2 = p")
      case True
      have "j = 2 * p + 1 \<or> j = 2 * p + 2" using True j(1) by arith
      with jl have "\<not> f (h ! j) x" by (rule D)
      then show ?thesis using True jp p by (simp add: edge_ok_def)
    next
      case False
      have "\<not> f (h ! j) (h ! ((j - 1) div 2))"
        using inv j(1) jl j(3) jp False by (rule hole_inv_edge)
      then show ?thesis using False jp by (simp add: edge_ok_def)
    qed
  qed
qed

lemma siftdown_loop_heap:
  "strict_weak f \<Longrightarrow> hole_inv f k h p \<Longrightarrow>
   (\<And>c. c < length h \<Longrightarrow> c = 2 * p + 1 \<or> c = 2 * p + 2 \<Longrightarrow> \<not> f (h ! c) x) \<Longrightarrow>
   heap_above f k (siftdown_loop f h k p x)"
proof (induction f h k p x rule: siftdown_loop.induct)
  case (1 f h k p x)
  note sw = "1.prems"(1) and inv = "1.prems"(2)
  let ?pp = "(p - 1) div 2"
  have "desc k p" using inv by (simp add: hole_inv_def)
  then have kp: "k \<le> p" by (rule desc_ge)
  show ?case
  proof (cases "p > k \<and> f x (h ! ?pp)")
    case True
    then have pk: "p \<noteq> k" by simp
    have inv': "hole_inv f k (h[p := h ! ?pp]) ?pp"
      using sw inv pk by (rule hole_inv_move_up)
    have D': "\<not> f (h[p := h ! ?pp] ! c) x"
      if "c < length (h[p := h ! ?pp])" "c = 2 * ?pp + 1 \<or> c = 2 * ?pp + 2" for c
      using sw inv pk _ _ that(2)
    proof (rule hole_inv_move_up_children)
      show "f x (h ! ?pp)" using True by simp
      show "c < length h" using that(1) by simp
    qed
    have "heap_above f k (siftdown_loop f (h[p := h ! ?pp]) k ?pp x)"
      using True sw inv' D' by (intro "1.IH") simp_all
    then show ?thesis
      using True by (subst siftdown_loop.simps) simp
  next
    case False
    have "heap_above f k (h[p := x])"
      using inv
    proof (rule hole_inv_fill)
      show "\<not> f (h ! c) x" if "c < length h" "c = 2 * p + 1 \<or> c = 2 * p + 2" for c
        using that by (rule "1.prems"(3))
      show "\<not> f x (h ! ?pp)" if "p \<noteq> k"
        using that kp False by auto
    qed
    moreover have "siftdown_loop f h k p x = h[p := x]"
      using False by (subst siftdown_loop.simps) auto
    ultimately show ?thesis by simp
  qed
qed

lemma smaller_child_cases:
  assumes "2 * p + 1 < length h"
  shows "smaller_child f h (length h) (2 * p + 1) = 2 * p + 1
         \<or> smaller_child f h (length h) (2 * p + 1) = 2 * p + 2"
    and "smaller_child f h (length h) (2 * p + 1) < length h"
  using assms by (auto simp: smaller_child_def)

lemma smaller_child_least:
  assumes sw: "strict_weak f" and "j < length h" "j = 2 * p + 1 \<or> j = 2 * p + 2"
  shows "\<not> f (h ! j) (h ! smaller_child f h (length h) (2 * p + 1))"
proof (cases "j = smaller_child f h (length h) (2 * p + 1)")
  case True
  then show ?thesis using strict_weak_irrefl [OF sw] by simp
next
  case False
  show ?thesis
  proof (cases "2 * p + 2 < length h \<and> \<not> f (h ! (2 * p + 1)) (h ! (2 * p + 2))")
    case True
    then have "smaller_child f h (length h) (2 * p + 1) = 2 * p + 2"
      by (simp add: smaller_child_def)
    with False assms(3) True show ?thesis by auto
  next
    case F: False
    then have s: "smaller_child f h (length h) (2 * p + 1) = 2 * p + 1"
      by (auto simp: smaller_child_def)
    with False assms(3) have j: "j = 2 * p + 2" by auto
    with assms(2) F have "f (h ! (2 * p + 1)) (h ! (2 * p + 2))" by simp
    then have "\<not> f (h ! (2 * p + 2)) (h ! (2 * p + 1))"
      using sw by (intro strict_weak_asym)
    then show ?thesis using s j by simp
  qed
qed

lemma hole_inv_move_down:
  assumes sw: "strict_weak f" and inv: "hole_inv f k h p" and c: "2 * p + 1 < length h"
  shows "hole_inv f k (h[p := h ! smaller_child f h (length h) (2 * p + 1)])
           (smaller_child f h (length h) (2 * p + 1))"
proof -
  let ?c = "smaller_child f h (length h) (2 * p + 1)"
  let ?h = "h[p := h ! ?c]"
  note sc = smaller_child_cases [OF c, of f]
  have p: "p < length h" using inv by (rule hole_inv_length)
  have d: "desc k p" using inv by (simp add: hole_inv_def)
  have cp: "(?c - 1) div 2 = p" "p < ?c" "0 < ?c" using sc(1) by arith+
  show ?thesis
  proof (rule hole_invI)
    show "?c < length ?h" using sc(2) by simp
    show "desc k ?c"
      using sc(1)
    proof
      assume e: "?c = 2 * p + 1"
      show ?thesis unfolding e using d by (rule desc_left)
    next
      assume e: "?c = 2 * p + 2"
      show ?thesis unfolding e using d by (rule desc_right)
    qed
    show "edge_ok f ?h j"
      if j: "0 < j" "j < length ?h" "k \<le> (j - 1) div 2" "j \<noteq> ?c" "(j - 1) div 2 \<noteq> ?c" for j
    proof (cases "j = p")
      case True
      have lt: "(p - 1) div 2 < p" using j(1) True by arith
      with j(3) True have pk: "p \<noteq> k" by auto
      have "\<not> f (h ! ?c) (h ! ((p - 1) div 2))"
        using inv pk sc(2) sc(1) by (rule hole_inv_child)
      then show ?thesis using True p lt by (simp add: edge_ok_def)
    next
      case jp: False
      have jl: "j < length h" using j(2) by simp
      show ?thesis
      proof (cases "(j - 1) div 2 = p")
        case True
        have "j = 2 * p + 1 \<or> j = 2 * p + 2" using True j(1) by arith
        with sw jl have "\<not> f (h ! j) (h ! ?c)" by (rule smaller_child_least)
        then show ?thesis using True jp p by (simp add: edge_ok_def)
      next
        case False
        have "\<not> f (h ! j) (h ! ((j - 1) div 2))"
          using inv j(1) jl j(3) jp False by (rule hole_inv_edge)
        then show ?thesis using False jp by (simp add: edge_ok_def)
      qed
    qed
    show "\<not> f (?h ! e) (?h ! ((?c - 1) div 2))"
      if e: "?c \<noteq> k" "e < length ?h" "e = 2 * ?c + 1 \<or> e = 2 * ?c + 2" for e
    proof -
      have epar: "(e - 1) div 2 = ?c" and e0: "0 < e" and ep: "e \<noteq> p"
        using e(3) cp(2) by arith+
      have kc: "k \<le> ?c" using desc_ge [OF d] cp(2) by simp
      have "e < length h" "k \<le> (e - 1) div 2" "(e - 1) div 2 \<noteq> p"
        using e(2) epar kc cp(2) by simp_all
      then have "\<not> f (h ! e) (h ! ((e - 1) div 2))"
        using inv e0 ep by (intro hole_inv_edge)
      then have "\<not> f (h ! e) (h ! ?c)" unfolding epar .
      then show ?thesis using ep p cp(1) by simp
    qed
  qed
qed

lemma siftup_loop_heap:
  "strict_weak f \<Longrightarrow> hole_inv f k h p \<Longrightarrow> endpos = length h \<Longrightarrow> childpos = 2 * p + 1 \<Longrightarrow>
   siftup_loop f h endpos p childpos = (h', p') \<Longrightarrow>
   hole_inv f k h' p' \<and> length h' = length h \<and> length h \<le> 2 * p' + 1"
proof (induction f h endpos p childpos arbitrary: h' p' rule: siftup_loop.induct)
  case (1 f h endpos p childpos)
  note sw = "1.prems"(1) and inv = "1.prems"(2) and ep = "1.prems"(3) and cp = "1.prems"(4)
  show ?case
  proof (cases "childpos < endpos")
    case True
    let ?c = "smaller_child f h endpos childpos"
    have c: "2 * p + 1 < length h" using True ep cp by simp
    have inv': "hole_inv f k (h[p := h ! ?c]) ?c"
      unfolding ep cp using sw inv c by (rule hole_inv_move_down)
    have step: "siftup_loop f (h[p := h ! ?c]) endpos ?c (2 * ?c + 1) = (h', p')"
      using "1.prems"(5) True by (subst (asm) siftup_loop.simps) simp
    have "hole_inv f k h' p' \<and> length h' = length (h[p := h ! ?c])
          \<and> length (h[p := h ! ?c]) \<le> 2 * p' + 1"
      using True sw inv' ep step by (intro "1.IH") simp_all
    then show ?thesis by simp
  next
    case False
    then have "(h', p') = (h, p)"
      using "1.prems"(5) by (subst (asm) siftup_loop.simps) simp
    then show ?thesis using inv False ep cp by simp
  qed
qed

lemma hole_inv_update:
  assumes "hole_inv f k h p"
  shows "hole_inv f k (h[p := x]) p"
proof (rule hole_invI)
  have p: "p < length h" using assms by (rule hole_inv_length)
  then show "p < length (h[p := x])" by simp
  show "desc k p" using assms by (simp add: hole_inv_def)
  show "edge_ok f (h[p := x]) j"
    if "0 < j" "j < length (h[p := x])" "k \<le> (j - 1) div 2" "j \<noteq> p" "(j - 1) div 2 \<noteq> p" for j
  proof -
    have "j < length h" using that(2) by simp
    then have "\<not> f (h ! j) (h ! ((j - 1) div 2))"
      using assms that(1,3,4,5) by (intro hole_inv_edge)
    then show ?thesis using that(4,5) by (simp add: edge_ok_def)
  qed
  show "\<not> f (h[p := x] ! c) (h[p := x] ! ((p - 1) div 2))"
    if "p \<noteq> k" "c < length (h[p := x])" "c = 2 * p + 1 \<or> c = 2 * p + 2" for c
  proof -
    have "(p - 1) div 2 < p" using hole_inv_parent(2) [OF assms that(1)] .
    moreover have "c \<noteq> p" using that(3) by arith
    moreover have "\<not> f (h ! c) (h ! ((p - 1) div 2))"
      using assms that by (intro hole_inv_child) simp_all
    ultimately show ?thesis by simp
  qed
qed

lemma hole_inv_start:
  assumes "k < length h" "heap_above f (Suc k) h"
  shows "hole_inv f k h k"
proof (rule hole_invI)
  show "k < length h" by (rule assms(1))
  show "desc k k" by (rule desc_self)
  show "edge_ok f h j"
    if "0 < j" "j < length h" "k \<le> (j - 1) div 2" "j \<noteq> k" "(j - 1) div 2 \<noteq> k" for j
    using assms(2) that unfolding heap_above_def by auto
  show "\<not> f (h ! c) (h ! ((k - 1) div 2))" if "k \<noteq> k" for c
    using that by simp
qed

lemma siftup_heap:
  assumes sw: "strict_weak f" and k: "k < length h" and above: "heap_above f (Suc k) h"
  shows "heap_above f k (siftup f h k)"
proof -
  obtain h' p' where hp: "siftup_loop f h (length h) k (2 * k + 1) = (h', p')"
    by (cases "siftup_loop f h (length h) k (2 * k + 1)")
  have inv: "hole_inv f k h k" using k above by (rule hole_inv_start)
  from siftup_loop_heap [OF sw inv refl refl hp]
  have inv': "hole_inv f k h' p'" and len: "length h' = length h" "length h \<le> 2 * p' + 1"
    by simp_all
  have p': "p' < length h'" using inv' by (rule hole_inv_length)
  let ?h = "h'[p' := h ! k]"
  have inv'': "hole_inv f k ?h p'" using inv' by (rule hole_inv_update)
  have "heap_above f k (siftdown_loop f ?h k p' (h ! k))"
    using sw inv''
  proof (rule siftdown_loop_heap)
    show "\<not> f (?h ! c) (h ! k)" if "c < length ?h" "c = 2 * p' + 1 \<or> c = 2 * p' + 2" for c
      using that len by auto
  qed
  moreover have "siftup f h k = siftdown_loop f ?h k p' (h ! k)"
    using hp p' by (simp add: siftup_def siftdown_def Let_def)
  ultimately show ?thesis by simp
qed

lemma fold_siftup_heap:
  assumes sw: "strict_weak f"
  shows "m \<le> length x \<Longrightarrow> heap_above f m x \<Longrightarrow>
         is_heap f (fold (\<lambda>i h. siftup f h i) (rev [0 ..< m]) x)"
proof (induction m arbitrary: x)
  case 0
  then show ?case by (simp add: is_heap_def)
next
  case (Suc m)
  have "heap_above f m (siftup f x m)"
    using sw Suc.prems by (intro siftup_heap) simp_all
  then have "is_heap f (fold (\<lambda>i h. siftup f h i) (rev [0 ..< m]) (siftup f x m))"
    using Suc.prems(1) by (intro Suc.IH) simp_all
  then show ?case by simp
qed

lemma heapify_heap:
  assumes "strict_weak f"
  shows "is_heap f (heapify f x)"
  unfolding heapify_def using assms
proof (rule fold_siftup_heap)
  show "length x div 2 \<le> length x" by simp
  show "heap_above f (length x div 2) x"
    unfolding heap_above_def
  proof (intro allI impI, elim conjE)
    fix j
    assume "0 < j" "j < length x" "length x div 2 \<le> (j - 1) div 2"
    then have False by arith
    then show "edge_ok f x j" ..
  qed
qed

lemma heappush_heap:
  assumes sw: "strict_weak f" and heap: "is_heap f h"
  shows "is_heap f (heappush f h x)"
proof -
  let ?h = "h @ [x]"
  have inv: "hole_inv f 0 ?h (length h)"
  proof (rule hole_invI)
    show "length h < length ?h" by simp
    show "desc 0 (length h)" by (rule desc_zero)
    show "edge_ok f ?h j"
      if "0 < j" "j < length ?h" "j \<noteq> length h" for j
    proof -
      have j: "j < length h" using that(2,3) by simp
      then have "(j - 1) div 2 < length h" by arith
      moreover have "edge_ok f h j"
        using heap that(1) j unfolding is_heap_def heap_above_def by simp
      ultimately show ?thesis using j by (simp add: edge_ok_def nth_append)
    qed
    show "\<not> f (?h ! c) (?h ! ((length h - 1) div 2))"
      if "c < length ?h" "c = 2 * length h + 1 \<or> c = 2 * length h + 2" for c
      using that by auto
  qed
  have "heap_above f 0 (siftdown_loop f ?h 0 (length h) (?h ! length h))"
    using sw inv
  proof (rule siftdown_loop_heap)
    show "\<not> f (?h ! c) (?h ! length h)"
      if "c < length ?h" "c = 2 * length h + 1 \<or> c = 2 * length h + 2" for c
      using that by auto
  qed
  then show ?thesis
    by (simp add: is_heap_def heappush_def siftdown_def)
qed

lemma heap_min:
  assumes sw: "strict_weak f" and heap: "is_heap f h"
  shows "j < length h \<Longrightarrow> \<not> f (h ! j) (h ! 0)"
proof (induction j rule: less_induct)
  case (less j)
  show ?case
  proof (cases "j = 0")
    case True
    then show ?thesis using strict_weak_irrefl [OF sw] by simp
  next
    case False
    then have par: "(j - 1) div 2 < j" by arith
    with less.prems have "(j - 1) div 2 < length h" by simp
    with par have "\<not> f (h ! ((j - 1) div 2)) (h ! 0)" by (rule less.IH)
    moreover have "\<not> f (h ! j) (h ! ((j - 1) div 2))"
      using heap False less.prems unfolding is_heap_def heap_above_def edge_ok_def by simp
    ultimately show ?thesis using strict_weak_trans [OF sw] by blast
  qed
qed

lemma heappop_heap:
  assumes sw: "strict_weak f" and heap: "is_heap f h" and pop: "heappop f h = Inr (x, h')"
  shows "is_heap f h'" and "\<forall>y\<in>set h. \<not> f y x" and "x = h ! 0"
proof -
  from pop have ne: "h \<noteq> []" by (auto simp: heappop_def)
  then obtain ys y where h: "h = ys @ [y]" by (cases h rule: rev_cases) auto
  have x: "x = h ! 0"
    using pop h by (cases ys) (auto simp: heappop_def Let_def)
  show "x = h ! 0" by (rule x)
  show "\<forall>y\<in>set h. \<not> f y x"
    unfolding x using heap_min [OF sw heap] by (auto simp: in_set_conv_nth)
  show "is_heap f h'"
  proof (cases "ys = []")
    case True
    with pop h have "h' = []" by (simp add: heappop_def)
    then show ?thesis by (simp add: is_heap_def heap_above_def)
  next
    case False
    then have len: "0 < length ys" by simp
    from pop h False have h': "h' = siftup f (ys[0 := y]) 0"
      by (simp add: heappop_def)
    have "heap_above f (Suc 0) (ys[0 := y])"
      unfolding heap_above_def
    proof (intro allI impI, elim conjE)
      fix j
      assume j: "0 < j" "j < length (ys[0 := y])" "Suc 0 \<le> (j - 1) div 2"
      then have jl: "j < length ys" and par: "(j - 1) div 2 < length ys" "(j - 1) div 2 \<noteq> 0"
        by simp_all
      have "edge_ok f h j"
        using heap j(1) jl h unfolding is_heap_def heap_above_def by simp
      then show "edge_ok f (ys[0 := y]) j"
        using j(1) jl par h by (simp add: edge_ok_def nth_append)
    qed
    with sw have "heap_above f 0 (siftup f (ys[0 := y]) 0)"
      using len by (intro siftup_heap) simp_all
    then show ?thesis by (simp add: h' is_heap_def)
  qed
qed

section \<open>The order of the trees and the merges\<close>

lemma leaves_nonempty: "leaves t \<noteq> []"
  by (induction t) simp_all

lemma min_symbol_leaf [simp]: "min_symbol (Leaf f s) = s"
  by (simp add: min_symbol_def)

lemma min_symbol_node: "min_symbol (Node f l r) = min (min_symbol l) (min_symbol r)"
  unfolding min_symbol_def using leaves_nonempty [of l] leaves_nonempty [of r]
  by (simp add: Min_Un)

lemma min_symbol_in: "min_symbol t \<in> set (leaves t)"
  unfolding min_symbol_def using leaves_nonempty [of t] by (intro Min_in) simp_all

lemma unat_min: "unat (min a b) = min (unat a) (unat b)"
  by (simp add: min_def word_le_nat_alt)

lemma find_smallest_min: "find_smallest t 1000 = unat (min_symbol t)"
proof (induction t)
  case (Leaf f s)
  have "unat s < 1000" using unat_byte_less [of s] by simp
  then show ?case by simp
next
  case (Node f l r)
  then show ?case by (simp add: min_symbol_node unat_min)
qed

lemma lt_iff:
  fixes a b :: "'w::linorder PrefixTree"
  shows "lt a b \<longleftrightarrow> key a < key b \<or> (key a = key b \<and> min_symbol a < min_symbol b)"
  by (auto simp: lt_def find_smallest_min word_less_nat_alt)

lemma lt_strict_weak: "strict_weak (lt :: 'w::linorder PrefixTree \<Rightarrow> 'w PrefixTree \<Rightarrow> bool)"
  unfolding strict_weak_def
proof (intro conjI allI impI)
  fix x y :: "'w PrefixTree"
  assume "lt x y"
  then show "\<not> lt y x" unfolding lt_iff by auto
next
  fix x y z :: "'w PrefixTree"
  assume "\<not> lt y x" "\<not> lt z y"
  then show "\<not> lt z x" unfolding lt_iff by auto
qed

lemma lt_total:
  fixes a b :: "'w::linorder PrefixTree"
  shows "min_symbol a \<noteq> min_symbol b \<Longrightarrow> \<not> lt b a \<Longrightarrow> lt a b"
  unfolding lt_iff by auto

lemma heap_symbols_member:
  assumes "x \<in> set m"
  shows "\<exists>M. heap_symbols m = mset (leaves x) + M"
proof -
  from assms have "x \<in># mset m" by simp
  then obtain M' where "mset m = add_mset x M'" by (rule mset_add)
  then show ?thesis by (simp add: heap_symbols_def)
qed

lemma popped_disjoint:
  assumes "\<forall>s. count (heap_symbols m) s \<le> 1" "heappop f m = Inr (t, m')" "x \<in> set m'"
  shows "set (leaves t) \<inter> set (leaves x) = {}"
proof (rule ccontr)
  assume "set (leaves t) \<inter> set (leaves x) \<noteq> {}"
  then obtain s where s: "s \<in> set (leaves t)" "s \<in> set (leaves x)" by auto
  from heap_symbols_member [OF assms(3)] obtain M where
    "heap_symbols m' = mset (leaves x) + M" by blast
  with heap_symbols_pop [OF assms(2)]
  have "heap_symbols m = mset (leaves t) + mset (leaves x) + M" by simp
  then have "count (heap_symbols m) s
             = count (mset (leaves t)) s + count (mset (leaves x)) s + count M s"
    by simp
  moreover have "1 \<le> count (mset (leaves t)) s" "1 \<le> count (mset (leaves x)) s"
    using s by simp_all
  moreover have "count (heap_symbols m) s \<le> 1"
    using assms(1) by simp
  ultimately show False by simp
qed

lemma popped_least:
  fixes m :: "'w::linorder PrefixTree list"
  assumes "\<forall>s. count (heap_symbols m) s \<le> 1" "is_heap lt m" "heappop lt m = Inr (t, m')"
    "x \<in> set m'"
  shows "lt t x"
proof -
  have "set (leaves t) \<inter> set (leaves x) = {}"
    using assms(1,3,4) by (rule popped_disjoint)
  then have ne: "min_symbol t \<noteq> min_symbol x"
    using min_symbol_in [of t] min_symbol_in [of x] by auto
  have "set_mset (mset m) = set_mset (add_mset t (mset m'))"
    using heappop_mset [OF assms(3)] by simp
  then have "set m = insert t (set m')" by simp
  with assms(4) have "x \<in> set m" by simp
  then have "\<not> lt x t"
    using heappop_heap(2) [OF lt_strict_weak assms(2,3)] by blast
  with ne show ?thesis by (rule lt_total)
qed

lemma queue_after_step:
  assumes "1 < length (queue_after tbl n)"
  obtains t1 m1 t2 m2 where
    "heappop lt (queue_after tbl n) = Inr (t1, m1)" "heappop lt m1 = Inr (t2, m2)"
    "queue_after tbl (Suc n) = heappush lt m2 (fromTwoTrees t1 t2)"
    "build_loop (queue_after tbl n) = build_loop (queue_after tbl (Suc n))"
proof -
  from assms obtain t1 m1 t2 m2 where
    p: "heappop lt (queue_after tbl n) = Inr (t1, m1)" "heappop lt m1 = Inr (t2, m2)"
       "build_loop (queue_after tbl n) = build_loop (heappush lt m2 (fromTwoTrees t1 t2))"
    by (rule build_loop_step)
  have "queue_after tbl (Suc n) = heappush lt m2 (fromTwoTrees t1 t2)"
    using assms p(1,2) by (simp add: Let_def)
  with p show thesis by (intro that) simp_all
qed

lemma queue_after_stop:
  "\<not> 1 < length (queue_after tbl n) \<Longrightarrow> queue_after tbl (Suc n) = queue_after tbl n"
  by (simp add: Let_def)

declare queue_after.simps(2) [simp del]

lemma build_loop_queue_after:
  "build_loop (queue_after tbl n) = build_loop (queue_after tbl 0)"
proof (induction n)
  case 0
  show ?case by simp
next
  case (Suc n)
  show ?case
  proof (cases "1 < length (queue_after tbl n)")
    case True
    then have "build_loop (queue_after tbl n) = build_loop (queue_after tbl (Suc n))"
      by (rule queue_after_step)
    with Suc show ?thesis by simp
  next
    case False
    then have e: "queue_after tbl (Suc n) = queue_after tbl n" by (rule queue_after_stop)
    show ?thesis unfolding e by (rule Suc)
  qed
qed

lemma init_queue_after:
  "HuffmanCode_init tbl =
     (case build_loop (queue_after tbl 0) of
        Inl e \<Rightarrow> Inl e
      | Inr m' \<Rightarrow>
          (case heappop lt m' of
             Inl e \<Rightarrow> Inl e
           | Inr (t, m'') \<Rightarrow> Inr \<lparr>tree = t, code_array = search_tree t [] (replicate 256 [])\<rparr>))"
  by (simp add: HuffmanCode_init_def Let_def)

lemma queue_after_inv:
  fixes tbl :: "(byte \<times> 'w::{linorder,plus}) list"
  shows "is_heap lt (queue_after tbl n) \<and> heap_symbols (queue_after tbl n) = mset (map fst tbl)"
proof (induction n)
  case 0
  have "is_heap lt (heapify lt (map (\<lambda>(b, f). Leaf f b) tbl))"
    using lt_strict_weak by (rule heapify_heap)
  then have "is_heap lt (queue_after tbl 0)" by simp
  moreover have "heap_symbols (queue_after tbl 0) = mset (map fst tbl)"
    using heap_symbols_leaves [of tbl] by (simp add: heap_symbols_def)
  ultimately show ?case by simp
next
  case (Suc n)
  show ?case
  proof (cases "1 < length (queue_after tbl n)")
    case True
    then obtain t1 m1 t2 m2 where
      p: "heappop lt (queue_after tbl n) = Inr (t1, m1)" "heappop lt m1 = Inr (t2, m2)"
         "queue_after tbl (Suc n) = heappush lt m2 (fromTwoTrees t1 t2)"
      by (rule queue_after_step)
    from Suc have h: "is_heap lt (queue_after tbl n)" by simp
    have h1: "is_heap lt m1" using lt_strict_weak h p(1) by (rule heappop_heap(1))
    have h2: "is_heap lt m2" using lt_strict_weak h1 p(2) by (rule heappop_heap(1))
    have "is_heap lt (queue_after tbl (Suc n))"
      unfolding p(3) using lt_strict_weak h2 by (rule heappush_heap)
    moreover have "heap_symbols (queue_after tbl (Suc n)) = heap_symbols (queue_after tbl n)"
      unfolding p(3) using heap_symbols_pop [OF p(1)] heap_symbols_pop [OF p(2)]
      by (simp add: heap_symbols_push fromTwoTrees_def)
    ultimately show ?thesis using Suc by simp
  next
    case False
    then have e: "queue_after tbl (Suc n) = queue_after tbl n" by (rule queue_after_stop)
    show ?thesis unfolding e by (rule Suc)
  qed
qed

lemma distinct_count_le: "distinct ks \<Longrightarrow> count (mset ks) s \<le> 1"
  by (simp add: distinct_count_atmost_1)

lemma length_heapify [simp]: "length (heapify f x) = length x"
proof -
  have "mset (heapify f x) = mset x" by simp
  then show ?thesis by (rule mset_eq_length)
qed

lemma length_queue_after_0: "length (queue_after tbl 0) = length tbl"
  by simp

lemma length_queue_after:
  "n < length tbl \<Longrightarrow> length (queue_after tbl n) = length tbl - n"
proof (induction n)
  case 0
  show ?case by (simp add: length_queue_after_0)
next
  case (Suc n)
  then have len: "length (queue_after tbl n) = length tbl - n" by simp
  with Suc.prems have "1 < length (queue_after tbl n)" by simp
  then obtain t1 m1 t2 m2 where
    p: "heappop lt (queue_after tbl n) = Inr (t1, m1)" "heappop lt m1 = Inr (t2, m2)"
       "queue_after tbl (Suc n) = heappush lt m2 (fromTwoTrees t1 t2)"
    by (rule queue_after_step)
  from length_heappop [OF p(1)] length_heappop [OF p(2)] len
  have "Suc (Suc (length m2)) = length tbl - n" by simp
  then show ?case unfolding p(3) by simp
qed

lemma init_final_queue:
  assumes "tbl \<noteq> []"
  shows "\<exists>h. HuffmanCode_init tbl = Inr h
             \<and> queue_after tbl (length tbl - 1) = [tree h]
             \<and> (\<forall>n. build_loop (queue_after tbl n) = Inr [tree h])"
proof -
  let ?q = "queue_after tbl (length tbl - 1)"
  have "length ?q = length tbl - (length tbl - 1)"
    using assms by (intro length_queue_after) simp
  then have "length ?q = 1" using assms by (cases tbl) simp_all
  then obtain t where q: "?q = [t]" by (cases ?q) simp_all
  have "build_loop ?q = Inr [t]" unfolding q by (rule build_loop_single)
  then have b: "build_loop (queue_after tbl n) = Inr [t]" for n
    using build_loop_queue_after [of tbl n] build_loop_queue_after [of tbl "length tbl - 1"]
    by simp
  have "HuffmanCode_init tbl = Inr \<lparr>tree = t, code_array = search_tree t [] (replicate 256 [])\<rparr>"
    unfolding init_queue_after using b [of 0] by (simp add: heappop_single)
  with q b show ?thesis by simp
qed

lemma heappop_member:
  assumes "heappop f m = Inr (t, m')"
  shows "set m = insert t (set m')"
proof -
  have "set_mset (mset m) = set_mset (add_mset t (mset m'))"
    using heappop_mset [OF assms] by simp
  then show ?thesis by simp
qed

lemma set_heappush: "set (heappush f m t) = insert t (set m)"
proof -
  have "set_mset (mset (heappush f m t)) = set_mset (add_mset t (mset m))"
    by simp
  then show ?thesis by (simp del: heappush_mset)
qed

lemma heap_symbols_count:
  fixes tbl :: "(byte \<times> 'w::{linorder,plus}) list"
  assumes "distinct (map fst tbl)"
  shows "\<forall>a. count (heap_symbols (queue_after tbl n)) a \<le> 1"
proof
  fix a
  have "heap_symbols (queue_after tbl n) = mset (map fst tbl)"
    using queue_after_inv [of tbl n] by simp
  then show "count (heap_symbols (queue_after tbl n)) a \<le> 1"
    using distinct_count_le [OF assms, of a] by simp
qed

lemma merge_order:
  fixes tbl :: "(byte \<times> 'w::{linorder,plus}) list"
  assumes "distinct (map fst tbl)"
    "heappop lt (queue_after tbl n) = Inr (t1, m1)" "heappop lt m1 = Inr (t2, m2)"
  shows "\<forall>x\<in>set m1. lt t1 x" "\<forall>x\<in>set m2. lt t2 x" "lt t1 t2"
proof -
  let ?m = "queue_after tbl n"
  from queue_after_inv [of tbl n] have h: "is_heap lt ?m" by simp
  have h1: "is_heap lt m1" using lt_strict_weak h assms(2) by (rule heappop_heap(1))
  have c: "\<forall>a. count (heap_symbols ?m) a \<le> 1"
    using assms(1) by (rule heap_symbols_count)
  have "heap_symbols ?m = mset (leaves t1) + heap_symbols m1"
    using assms(2) by (rule heap_symbols_pop)
  then have "count (heap_symbols m1) a \<le> count (heap_symbols ?m) a" for a by simp
  with c have c1: "\<forall>a. count (heap_symbols m1) a \<le> 1"
    using le_trans by blast
  show l1: "\<forall>x\<in>set m1. lt t1 x"
    using popped_least [OF c h assms(2)] by blast
  show "\<forall>x\<in>set m2. lt t2 x"
    using popped_least [OF c1 h1 assms(3)] by blast
  have "t2 \<in> set m1" using heappop_member [OF assms(3)] by simp
  with l1 show "lt t1 t2" by blast
qed

lemma queue_after_well_merged:
  fixes tbl :: "(byte \<times> 'w::{linorder,plus}) list"
  assumes "distinct (map fst tbl)"
  shows "\<forall>t\<in>set (queue_after tbl n). well_merged t"
proof (induction n)
  case 0
  have "set_mset (mset (queue_after tbl 0)) = set_mset (mset (map (\<lambda>(b, f). Leaf f b) tbl))"
    by simp
  then have "set (queue_after tbl 0) = set (map (\<lambda>(b, f). Leaf f b) tbl)"
    by (simp only: set_mset_mset)
  then show ?case by auto
next
  case (Suc n)
  show ?case
  proof (cases "1 < length (queue_after tbl n)")
    case True
    then obtain t1 m1 t2 m2 where
      p: "heappop lt (queue_after tbl n) = Inr (t1, m1)" "heappop lt m1 = Inr (t2, m2)"
         "queue_after tbl (Suc n) = heappush lt m2 (fromTwoTrees t1 t2)"
      by (rule queue_after_step)
    have s1: "set (queue_after tbl n) = insert t1 (set m1)" using p(1) by (rule heappop_member)
    have s2: "set m1 = insert t2 (set m2)" using p(2) by (rule heappop_member)
    have "lt t1 t2" using assms p(1,2) by (rule merge_order(3))
    moreover have "well_merged t1" "well_merged t2" "\<forall>t\<in>set m2. well_merged t"
      using Suc s1 s2 by simp_all
    ultimately show ?thesis
      unfolding p(3) set_heappush by (simp add: fromTwoTrees_def)
  next
    case False
    then have e: "queue_after tbl (Suc n) = queue_after tbl n" by (rule queue_after_stop)
    show ?thesis unfolding e by (rule Suc)
  qed
qed

lemma queue_after_short:
  "\<not> Suc n < length tbl \<Longrightarrow> \<not> 1 < length (queue_after tbl n)"
proof (induction n)
  case 0
  then show ?case by simp
next
  case (Suc n)
  show ?case
  proof (cases "Suc n < length tbl")
    case True
    then have "length (queue_after tbl (Suc n)) = length tbl - Suc n"
      by (rule length_queue_after)
    with Suc.prems show ?thesis by simp
  next
    case False
    then have s: "\<not> 1 < length (queue_after tbl n)" by (rule Suc.IH)
    then have "queue_after tbl (Suc n) = queue_after tbl n" by (rule queue_after_stop)
    with s show ?thesis by simp
  qed
qed

text \<open>
  C7. The constructor's tree is the one tree left in the queue after all the merges of
  the loop of \<^verbatim>\<open>__init__\<close>, and at every internal node of it the left child is less
  than the right child by \<^verbatim>\<open>__lt__\<close>. In every iteration that merges, the first tree
  popped is less (by \<^verbatim>\<open>__lt__\<close>) than every other tree of the queue, the second is
  less than every tree that remains, and the merged node has the first as its left and
  the second as its right child. Between trees of equal weight \<^verbatim>\<open>__lt__\<close> compares
  the smallest symbols of their leaves, which is what \<^verbatim>\<open>find_smallest\<close> computes for
  leaves and internal nodes alike; so the first popped tree has a smaller smallest
  symbol than every tree of its weight in the queue.
\<close>

theorem tie_break_at_every_merge:
  fixes tbl :: "(byte \<times> 'w::{linorder,plus}) list"
  assumes "distinct (map fst tbl)" "1 < length (queue_after tbl n)"
  shows "\<exists>h t1 m1 t2 m2.
           HuffmanCode_init tbl = Inr h
         \<and> build_loop (queue_after tbl n) = Inr [tree h]
         \<and> queue_after tbl (length tbl - 1) = [tree h]
         \<and> well_merged (tree h)
         \<and> Suc n < length tbl \<and> length (queue_after tbl n) = length tbl - n
         \<and> heappop lt (queue_after tbl n) = Inr (t1, m1) \<and> heappop lt m1 = Inr (t2, m2)
         \<and> queue_after tbl (Suc n) = heappush lt m2 (Node (key t1 + key t2) t1 t2)
         \<and> build_loop (queue_after tbl n) = build_loop (queue_after tbl 0)
         \<and> lt t1 t2 \<and> (\<forall>x\<in>set m1. lt t1 x) \<and> (\<forall>x\<in>set m2. lt t2 x)
         \<and> (\<forall>x\<in>set m1. key x = key t1 \<longrightarrow> min_symbol t1 < min_symbol x)
         \<and> (\<forall>x\<in>set m2. key x = key t2 \<longrightarrow> min_symbol t2 < min_symbol x)
         \<and> (\<forall>x y :: 'w PrefixTree. key x = key y \<longrightarrow> lt x y = (min_symbol x < min_symbol y))
         \<and> (\<forall>x :: 'w PrefixTree. find_smallest x 1000 = unat (Min (set (leaves x))))"
proof -
  let ?m = "queue_after tbl n"
  have n: "Suc n < length tbl"
    using assms(2) queue_after_short [of n tbl] by blast
  then have ne: "tbl \<noteq> []" by auto
  have len: "length ?m = length tbl - n"
    using n by (intro length_queue_after) simp
  from init_final_queue [OF ne] obtain h where
    h: "HuffmanCode_init tbl = Inr h" "queue_after tbl (length tbl - 1) = [tree h]"
       "build_loop ?m = Inr [tree h]"
    by blast
  have wm: "well_merged (tree h)"
    using queue_after_well_merged [OF assms(1), of "length tbl - 1"] h(2) by simp
  from assms(2) obtain t1 m1 t2 m2 where
    p: "heappop lt ?m = Inr (t1, m1)" "heappop lt m1 = Inr (t2, m2)"
       "queue_after tbl (Suc n) = heappush lt m2 (fromTwoTrees t1 t2)"
    by (rule queue_after_step)
  note mo = merge_order [OF assms(1) p(1,2)]
  have tie: "lt x y = (min_symbol x < min_symbol y)" if "key x = key y"
    for x y :: "'w PrefixTree"
    using that by (simp add: lt_iff)
  have e1: "\<forall>x\<in>set m1. key x = key t1 \<longrightarrow> min_symbol t1 < min_symbol x"
  proof (intro ballI impI)
    fix x
    assume x: "x \<in> set m1" "key x = key t1"
    then have "lt t1 x" using mo(1) by blast
    then show "min_symbol t1 < min_symbol x" using tie [of t1 x] x(2) by simp
  qed
  have e2: "\<forall>x\<in>set m2. key x = key t2 \<longrightarrow> min_symbol t2 < min_symbol x"
  proof (intro ballI impI)
    fix x
    assume x: "x \<in> set m2" "key x = key t2"
    then have "lt t2 x" using mo(2) by blast
    then show "min_symbol t2 < min_symbol x" using tie [of t2 x] x(2) by simp
  qed
  have tie': "\<forall>x y :: 'w PrefixTree. key x = key y \<longrightarrow> lt x y = (min_symbol x < min_symbol y)"
    using tie by blast
  have fs: "\<forall>x :: 'w PrefixTree. find_smallest x 1000 = unat (Min (set (leaves x)))"
    by (simp add: find_smallest_min min_symbol_def)
  have q: "queue_after tbl (Suc n) = heappush lt m2 (Node (key t1 + key t2) t1 t2)"
    using p(3) by (simp add: fromTwoTrees_def)
  have b: "build_loop ?m = build_loop (queue_after tbl 0)"
    by (rule build_loop_queue_after)
  show ?thesis
    by (rule exI [of _ h], rule exI [of _ t1], rule exI [of _ m1], rule exI [of _ t2],
        rule exI [of _ m2])
       (intro conjI h(1) h(3) h(2) wm n len p(1) p(2) q b mo(3) mo(1) mo(2) e1 e2 tie' fs)
qed

lemma queue_tblA:
  "distinct (map fst tblA)"
  "1 < length (queue_after tblA 0)"
  "queue_after tblA 0 = [Leaf (1/3) 0x41, Leaf (1/3) 0x42, Leaf (1/3) 0x43]"
  "heappop lt (queue_after tblA 0) = Inr (Leaf (1/3) 0x41, [Leaf (1/3) 0x42, Leaf (1/3) 0x43])"
  "heappop lt [Leaf (1/3) 0x42, Leaf (1/3) 0x43 :: real PrefixTree]
     = Inr (Leaf (1/3) 0x42, [Leaf (1/3) 0x43])"
  "queue_after tblA (Suc 0)
     = [Leaf (1/3) 0x43, Node (2/3) (Leaf (1/3) 0x41) (Leaf (1/3) 0x42)]"
  "queue_after tblA (length tblA - 1) = [tree hA]"
  "well_merged (tree hA)"
  by code_simp+

theorem tie_break_at_every_merge_witness:
  "distinct (map fst tblA) \<and> 1 < length (queue_after tblA 0)
   \<and> HuffmanCode_init tblA = Inr hA
   \<and> queue_after tblA (length tblA - 1) = [tree hA]
   \<and> well_merged (tree hA)
   \<and> heappop lt (queue_after tblA 0) = Inr (Leaf (1/3) 0x41, [Leaf (1/3) 0x42, Leaf (1/3) 0x43])
   \<and> queue_after tblA (Suc 0)
       = [Leaf (1/3) 0x43, Node (2/3) (Leaf (1/3) 0x41) (Leaf (1/3) 0x42)]
   \<and> (\<exists>h t1 m1 t2 m2.
           HuffmanCode_init tblA = Inr h
         \<and> build_loop (queue_after tblA 0) = Inr [tree h]
         \<and> queue_after tblA (length tblA - 1) = [tree h]
         \<and> well_merged (tree h)
         \<and> Suc 0 < length tblA \<and> length (queue_after tblA 0) = length tblA - 0
         \<and> heappop lt (queue_after tblA 0) = Inr (t1, m1) \<and> heappop lt m1 = Inr (t2, m2)
         \<and> queue_after tblA (Suc 0) = heappush lt m2 (Node (key t1 + key t2) t1 t2)
         \<and> build_loop (queue_after tblA 0) = build_loop (queue_after tblA 0)
         \<and> lt t1 t2 \<and> (\<forall>x\<in>set m1. lt t1 x) \<and> (\<forall>x\<in>set m2. lt t2 x)
         \<and> (\<forall>x\<in>set m1. key x = key t1 \<longrightarrow> min_symbol t1 < min_symbol x)
         \<and> (\<forall>x\<in>set m2. key x = key t2 \<longrightarrow> min_symbol t2 < min_symbol x)
         \<and> (\<forall>x y :: real PrefixTree. key x = key y \<longrightarrow> lt x y = (min_symbol x < min_symbol y))
         \<and> (\<forall>x :: real PrefixTree. find_smallest x 1000 = unat (Min (set (leaves x)))))"
  using tie_break_at_every_merge [OF queue_tblA(1,2)] queue_tblA(1,2,4,6,7,8) init_tblA
  by (intro conjI)

end
